theory Spec2Isabelle
  imports Main "HOL-Library.Sublist" "HOL-Library.List_Lexorder" "HOL-Library.Char_ord"
begin

section \<open>Go strings and the string helpers the package calls\<close>

text \<open>
  A Go string is a sequence of bytes, which is what \<^typ>\<open>string\<close> is here. The
  functions of package \<^verbatim>\<open>strings\<close> that the code calls are written out for the
  arguments the call sites pass (the substring searched for is always one of the
  constants \<^verbatim>\<open>"IN (*)"\<close>, \<^verbatim>\<open>"SELECT *"\<close> or \<^verbatim>\<open>"?"\<close>, never empty).
\<close>

fun strings_Index :: "string \<Rightarrow> string \<Rightarrow> int" where
  \<comment> \<open>\<^verbatim>\<open>strings.Index(s, substr)\<close>: offset of the first instance of substr, or -1.\<close>
  "strings_Index [] sub = (if sub = [] then 0 else - 1)"
| "strings_Index (c # s) sub =
     (if prefix sub (c # s) then 0
      else (let r = strings_Index s sub in if r < 0 then - 1 else r + 1))"

fun strings_Count :: "string \<Rightarrow> string \<Rightarrow> nat" where
  \<comment> \<open>\<^verbatim>\<open>strings.Count(s, substr)\<close>: the number of non-overlapping instances of a
      non-empty substr, found left to right.\<close>
  "strings_Count [] sub = 0"
| "strings_Count (c # s) sub =
     (if sub \<noteq> [] \<and> prefix sub (c # s) then Suc (strings_Count (drop (length sub - 1) s) sub)
      else strings_Count s sub)"

definition strings_Contains :: "string \<Rightarrow> string \<Rightarrow> bool" where
  \<comment> \<open>\<^verbatim>\<open>strings.Contains(s, substr)\<close> is \<^verbatim>\<open>Index(s, substr) >= 0\<close>.\<close>
  "strings_Contains s sub = (0 \<le> strings_Index s sub)"

definition strings_Replace1 :: "string \<Rightarrow> string \<Rightarrow> string \<Rightarrow> string" where
  \<comment> \<open>\<^verbatim>\<open>strings.Replace(s, old, new, 1)\<close>: the first instance of old replaced by new;
      s itself when old does not occur.\<close>
  "strings_Replace1 s old new =
     (let i = strings_Index s old
      in if i < 0 then s else take (nat i) s @ new @ drop (nat i + length old) s)"

definition strings_Repeat :: "string \<Rightarrow> nat \<Rightarrow> string" where
  "strings_Repeat s n = concat (replicate n s)"

definition strings_TrimPrefix :: "string \<Rightarrow> string \<Rightarrow> string" where
  "strings_TrimPrefix s p = (if prefix p s then drop (length p) s else s)"

fun strings_Join :: "string list \<Rightarrow> string \<Rightarrow> string" where
  "strings_Join [] sep = []"
| "strings_Join [x] sep = x"
| "strings_Join (x # y # ys) sep = x @ sep @ strings_Join (y # ys) sep"

section \<open>Package sqlputil\<close>

text \<open>
  Arguments are values of type \<^verbatim>\<open>any\<close>. The code looks at them through reflection
  only: at their kind, their length and their elements. A value is modelled by what
  reflection can tell about it.
\<close>

datatype gval =
    VNil                  \<comment> \<open>the nil interface: \<^verbatim>\<open>reflect.ValueOf\<close> gives the zero Value, kind Invalid\<close>
  | VInt int              \<comment> \<open>a number\<close>
  | VStr string           \<comment> \<open>kind String: has a length and can be indexed, byte by byte\<close>
  | VSlice "gval list"    \<comment> \<open>kind Slice (a nil slice is \<open>VSlice []\<close>)\<close>
  | VArray "gval list"    \<comment> \<open>kind Array\<close>
  | VLenOnly nat          \<comment> \<open>kinds Map, Chan and pointer to array: \<^verbatim>\<open>Len\<close> answers, \<^verbatim>\<open>Index\<close> panics\<close>
  | VOther nat            \<comment> \<open>every other kind (bool, float, struct, pointer, func): \<^verbatim>\<open>Len\<close> panics\<close>

datatype 'a outcome = Panic | Returns 'a

fun is_list :: "gval \<Rightarrow> bool" where
  \<comment> \<open>\<^verbatim>\<open>v.Kind() == reflect.Slice || v.Kind() == reflect.Array\<close>\<close>
  "is_list (VSlice xs) = True"
| "is_list (VArray xs) = True"
| "is_list v = False"

fun reflect_Len :: "gval \<Rightarrow> nat outcome" where
  \<comment> \<open>\<^verbatim>\<open>reflect.ValueOf(s).Len()\<close>, which panics on a kind with no length\<close>
  "reflect_Len (VSlice xs) = Returns (length xs)"
| "reflect_Len (VArray xs) = Returns (length xs)"
| "reflect_Len (VStr s) = Returns (length s)"
| "reflect_Len (VLenOnly n) = Returns n"
| "reflect_Len VNil = Panic"
| "reflect_Len (VInt i) = Panic"
| "reflect_Len (VOther k) = Panic"

fun ToAny :: "gval \<Rightarrow> gval list outcome" where
  \<comment> \<open>\<^verbatim>\<open>v.Len()\<close> panics on a kind with no length; \<^verbatim>\<open>v.Index(i)\<close> panics on a kind that
      cannot be indexed, which is reached only when the length is not 0.\<close>
  "ToAny (VSlice xs) = Returns xs"
| "ToAny (VArray xs) = Returns xs"
| "ToAny (VStr s) = Returns (map (\<lambda>c. VInt (of_char c)) s)"
| "ToAny (VLenOnly n) = (if n = 0 then Returns [] else Panic)"
| "ToAny VNil = Panic"
| "ToAny (VInt i) = Panic"
| "ToAny (VOther k) = Panic"

definition BuildPlaceholders :: "nat \<Rightarrow> string" where
  "BuildPlaceholders amountOfValues =
     (let attrs = strings_Repeat '', ?'' amountOfValues
      in strings_TrimPrefix attrs '', '')"

section \<open>Package sqlpin: the IN-clause expander\<close>

type_synonym error = string
  \<comment> \<open>an error value, by its message\<close>

definition InQueryReplace :: string where
  "InQueryReplace = ''IN (*)''"

definition replaceWithFlatten :: "gval list \<Rightarrow> gval list \<Rightarrow> nat \<Rightarrow> gval list outcome" where
  \<comment> \<open>\<^verbatim>\<open>first[index+1:]\<close> panics unless \<^verbatim>\<open>index < len(first)\<close>.\<close>
  "replaceWithFlatten first second index =
     (if index < length first
      then Returns (take index first @ second @ drop (index + 1) first)
      else Panic)"

definition argIndexOf :: "string \<Rightarrow> nat" where
  \<comment> \<open>the locals \<^verbatim>\<open>index\<close> and \<^verbatim>\<open>argIndex\<close> of \<^verbatim>\<open>InQuery\<close>\<close>
  "argIndexOf query =
     (let index = strings_Index query InQueryReplace + 1
      in strings_Count (take (nat index) query) ''?'')"

definition InQuery :: "string \<Rightarrow> gval list \<Rightarrow> (string \<times> gval list \<times> error option) outcome" where
  "InQuery query args =
     (if strings_Count query InQueryReplace > 1
      then Returns ('''', [], Some ''sqlp: only one in query is supported'')
      else if strings_Count query ''?'' + strings_Count query InQueryReplace = 1
      then
        (case args of
           [] \<Rightarrow> Returns (strings_Replace1 query InQueryReplace ''= FALSE'', [], None)
         | a0 # _ \<Rightarrow>
             if is_list a0
             then (case reflect_Len a0 of
                     Panic \<Rightarrow> Panic
                   | Returns n \<Rightarrow>
                       if n = 0
                       then Returns (strings_Replace1 query InQueryReplace ''= FALSE'', [], None)
                       else (case ToAny a0 of
                               Panic \<Rightarrow> Panic
                             | Returns elems \<Rightarrow>
                                 Returns (strings_Replace1 query InQueryReplace
                                            (''IN ('' @ BuildPlaceholders n @ '')''),
                                          elems, None)))
             else Returns (strings_Replace1 query InQueryReplace
                             (''IN ('' @ BuildPlaceholders (length args) @ '')''),
                           args, None))
      else
        (let argIndex = argIndexOf query
         in if length args \<le> argIndex
            then Returns ('''', [], Some ''sqlp: not enough arguments for in query'')
            else (case ToAny (args ! argIndex) of
                    Panic \<Rightarrow> Panic
                  | Returns argList \<Rightarrow>
                      if length argList = 0
                      then Returns (strings_Replace1 query InQueryReplace ''= FALSE'',
                                    take argIndex args @ drop (argIndex + 1) args, None)
                      else (case replaceWithFlatten args argList argIndex of
                              Panic \<Rightarrow> Panic
                            | Returns newArgs \<Rightarrow>
                                Returns (strings_Replace1 query InQueryReplace
                                           (''IN ('' @ BuildPlaceholders (length argList) @ '')''),
                                         newArgs, None)))))"

section \<open>ToSnakeCase\<close>

text \<open>
  \<^verbatim>\<open>for i, v := range src\<close> walks the runes of the string: \<open>v\<close> is the code point and
  \<open>i\<close> the byte offset where it starts, which is positive exactly when the rune is not
  the first one. The runes written to the buffer are the string that
  \<^verbatim>\<open>strings.ToLower\<close> then maps rune by rune with \<^verbatim>\<open>unicode.ToLower\<close>. So the
  function is modelled on the list of runes; the loop counter counts runes here.
\<close>

type_synonym rune = nat

definition unicode_ToLower :: "(rune \<Rightarrow> rune) \<Rightarrow> rune \<Rightarrow> rune" where
  \<comment> \<open>\<^verbatim>\<open>unicode.ToLower\<close>: on ASCII it adds \<^verbatim>\<open>'a' - 'A'\<close> to the letters A to Z and leaves the
      rest; beyond ASCII it reads the Unicode case tables, the parameter \<open>tbl\<close> here.\<close>
  "unicode_ToLower tbl r =
     (if r \<le> 127 then (if 65 \<le> r \<and> r \<le> 90 then r + 32 else r) else tbl r)"

fun ToSnakeCase_loop :: "nat \<Rightarrow> bool \<Rightarrow> rune list \<Rightarrow> rune list" where
  \<comment> \<open>the runes the loop writes to \<^verbatim>\<open>buf\<close>, from rune number \<open>i\<close> on; 65 is A, 90 is Z,
      95 is the underscore\<close>
  "ToSnakeCase_loop i prevUpper [] = []"
| "ToSnakeCase_loop i prevUpper (v # rest) =
     (let thisUpper = (65 \<le> v \<and> v \<le> 90)
      in (if i > 0 \<and> thisUpper \<and> \<not> prevUpper then [95] else [])
         @ v # ToSnakeCase_loop (i + 1) thisUpper rest)"

definition ToSnakeCase :: "(rune \<Rightarrow> rune) \<Rightarrow> rune list \<Rightarrow> rune list" where
  "ToSnakeCase tbl src = map (unicode_ToLower tbl) (ToSnakeCase_loop 0 False src)"

definition runes :: "string \<Rightarrow> rune list" where
  \<comment> \<open>the runes of an ASCII string: one per byte\<close>
  "runes s = map of_char s"

text \<open>
  The transformation as the specification words it: an underscore before each upper-case
  character that is not the first character and whose predecessor is not upper-case;
  then everything in lower case. The words do not say which characters are upper-case
  nor how a character is put in lower case, so both are parameters here: \<open>upper\<close> tells
  the upper-case characters and \<open>lower\<close> gives the lower-case form of a character.
\<close>

definition snake_case_words :: "(rune \<Rightarrow> bool) \<Rightarrow> (rune \<Rightarrow> rune) \<Rightarrow> rune list \<Rightarrow> rune list" where
  "snake_case_words upper lower src =
     map lower
       (concat (map (\<lambda>k. (if 0 < k \<and> upper (src ! k) \<and> \<not> upper (src ! (k - 1))
                           then [95] else []) @ [src ! k])
                    [0..<length src]))"

text \<open>
  Three readings of upper and lower case. The test of the code's loop: the letters A to
  Z. ASCII lower-casing: \<^verbatim>\<open>unicode.ToLower\<close> with nothing changed beyond ASCII. And
  Unicode, on the Latin-1 supplement: the capitals U+00C0 to U+00DE (the multiplication
  sign U+00D7 is not a letter) lie 32 below their small letters, which is what
  \<^verbatim>\<open>unicode.IsUpper\<close> and \<^verbatim>\<open>unicode.ToLower\<close> answer there.
\<close>

definition isUpperAZ :: "rune \<Rightarrow> bool" where
  "isUpperAZ v = (65 \<le> v \<and> v \<le> 90)"

definition ascii_ToLower :: "rune \<Rightarrow> rune" where
  "ascii_ToLower = unicode_ToLower (\<lambda>r. r)"

definition latin1_table :: "rune \<Rightarrow> rune" where
  "latin1_table r = (if 192 \<le> r \<and> r \<le> 222 \<and> r \<noteq> 215 then r + 32 else r)"

definition latin1_IsUpper :: "rune \<Rightarrow> bool" where
  "latin1_IsUpper r = (isUpperAZ r \<or> (192 \<le> r \<and> r \<le> 222 \<and> r \<noteq> 215))"

section \<open>Package sqlpdb: struct types as reflection shows them\<close>

datatype kind = Struct | OtherKind
  \<comment> \<open>the code only asks whether a kind is \<^verbatim>\<open>reflect.Struct\<close>\<close>

datatype rtype =
  RType (t_String: string)          \<comment> \<open>\<^verbatim>\<open>typ.String()\<close>\<close>
        (t_Kind: kind)              \<comment> \<open>\<^verbatim>\<open>typ.Kind()\<close>\<close>
        (t_ptrScanner: bool)        \<comment> \<open>\<^verbatim>\<open>reflect.PointerTo(typ).Implements(scannerType)\<close>\<close>
        (t_Fields: "sfield list")   \<comment> \<open>\<^verbatim>\<open>typ.Field(0)\<close>, ..., \<^verbatim>\<open>typ.Field(typ.NumField()-1)\<close>\<close>
and sfield =
  SField (f_Name: string)           \<comment> \<open>\<^verbatim>\<open>f.Name\<close>\<close>
         (f_PkgPath: string)        \<comment> \<open>\<^verbatim>\<open>f.PkgPath\<close>: empty for an exported field\<close>
         (f_Tag: "(string \<times> string) list")  \<comment> \<open>the struct tag, as its key-value pairs\<close>
         (f_Anonymous: bool)        \<comment> \<open>an embedded field\<close>
         (f_Type: rtype)

definition Tag_Lookup :: "(string \<times> string) list \<Rightarrow> string \<Rightarrow> string \<times> bool" where
  "Tag_Lookup tag key = (case map_of tag key of Some v \<Rightarrow> (v, True) | None \<Rightarrow> ('''', False))"

definition Tag_Get :: "(string \<times> string) list \<Rightarrow> string \<Rightarrow> string" where
  "Tag_Get tag key = fst (Tag_Lookup tag key)"

definition TagName :: string where "TagName = ''sql''"
definition AutoGenTagName :: string where "AutoGenTagName = ''sql-auto''"
definition IgnoreTagName :: string where "IgnoreTagName = ''sql-ign''"
definition QueryReplace :: string where "QueryReplace = ''SELECT *''"

type_synonym fieldInfo = "string \<rightharpoonup> nat list"
  \<comment> \<open>\<^verbatim>\<open>map[string][]int\<close>: column name to field index path\<close>

type_synonym cache = "string \<rightharpoonup> fieldInfo"
  \<comment> \<open>the package variable \<^verbatim>\<open>fieldInfoCache\<close>; every function that touches it takes the
      cache and returns it\<close>

definition fmt_bool :: "bool \<Rightarrow> string" where
  "fmt_bool b = (if b then ''true'' else ''false'')"

definition cacheKey :: "rtype \<Rightarrow> bool \<Rightarrow> bool \<Rightarrow> string" where
  \<comment> \<open>\<^verbatim>\<open>fmt.Sprintf("%s%s%t%t", typ.String(), TagName, includePk, applyIgnore)\<close>\<close>
  "cacheKey typ includePk applyIgnore =
     t_String typ @ TagName @ fmt_bool includePk @ fmt_bool applyIgnore"

definition pkCacheKey :: "rtype \<Rightarrow> string" where
  \<comment> \<open>\<^verbatim>\<open>typ.String()+AutoGenTagName\<close>\<close>
  "pkCacheKey typ = t_String typ @ AutoGenTagName"

lemma size_f_Type: "size (f_Type f) < size f"
  by (cases f) simp

lemma size_t_Fields: "size_list size (t_Fields t) < size t"
  by (cases t) simp

text \<open>
  \<^verbatim>\<open>getFieldInfo\<close>. \<open>NameMapper\<close> is the package variable of that name.
  \<^verbatim>\<open>typ.NumField()\<close> panics on a type that is not a struct. The loop over an embedded
  struct's map, \<^verbatim>\<open>finfo[k] = append([]int{i}, v...)\<close> for each entry, assigns every key of
  that map once, so the order of the iteration does not show: it is the map override
  \<open>++\<close> with each path prefixed by \<open>i\<close>.
\<close>

definition skipField :: "bool \<Rightarrow> bool \<Rightarrow> sfield \<Rightarrow> bool" where
  \<comment> \<open>the test under which the loop of \<^verbatim>\<open>getFieldInfo\<close> does \<^verbatim>\<open>continue\<close>:
      \<^verbatim>\<open>f.PkgPath != "" || tag == "-" || (!includePk && isPk) || (applyIgnore && shouldIgnore)\<close>\<close>
  "skipField includePk applyIgnore f =
     (let tag = Tag_Get (f_Tag f) TagName;
          isPk = snd (Tag_Lookup (f_Tag f) AutoGenTagName);
          shouldIgnore = snd (Tag_Lookup (f_Tag f) IgnoreTagName)
      in f_PkgPath f \<noteq> '''' \<or> tag = ''-'' \<or> (\<not> includePk \<and> isPk) \<or> (applyIgnore \<and> shouldIgnore))"

definition embedsStruct :: "sfield \<Rightarrow> bool" where
  \<comment> \<open>\<^verbatim>\<open>f.Anonymous && f.Type.Kind() == reflect.Struct\<close> and
      \<^verbatim>\<open>!reflect.PointerTo(f.Type).Implements(scannerType)\<close>\<close>
  "embedsStruct f = (f_Anonymous f \<and> t_Kind (f_Type f) = Struct \<and> \<not> t_ptrScanner (f_Type f))"

definition columnName :: "(string \<Rightarrow> string) \<Rightarrow> sfield \<Rightarrow> string" where
  \<comment> \<open>\<^verbatim>\<open>if tag == "" { tag = f.Name }; tag = NameMapper(tag)\<close>\<close>
  "columnName NameMapper f =
     (let tag = Tag_Get (f_Tag f) TagName
      in NameMapper (if tag = '''' then f_Name f else tag))"

function getFieldInfo ::
    "(string \<Rightarrow> string) \<Rightarrow> rtype \<Rightarrow> bool \<Rightarrow> bool \<Rightarrow> cache \<Rightarrow> (fieldInfo \<times> cache) outcome"
  and getFieldInfo_loop ::
    "(string \<Rightarrow> string) \<Rightarrow> bool \<Rightarrow> bool \<Rightarrow> nat \<Rightarrow> sfield list \<Rightarrow> fieldInfo \<Rightarrow> cache
       \<Rightarrow> (fieldInfo \<times> cache) outcome"
where
  "getFieldInfo NameMapper typ includePk applyIgnore c =
     (let key = cacheKey typ includePk applyIgnore
      in case c key of
           Some finfo \<Rightarrow> Returns (finfo, c)
         | None \<Rightarrow>
             if t_Kind typ \<noteq> Struct then Panic
             else (case getFieldInfo_loop NameMapper includePk applyIgnore 0 (t_Fields typ)
                          Map.empty c of
                     Panic \<Rightarrow> Panic
                   | Returns (finfo, c') \<Rightarrow> Returns (finfo, c'(key \<mapsto> finfo))))"
| "getFieldInfo_loop NameMapper includePk applyIgnore i [] finfo c = Returns (finfo, c)"
| "getFieldInfo_loop NameMapper includePk applyIgnore i (f # fs) finfo c =
     (if skipField includePk applyIgnore f
      then getFieldInfo_loop NameMapper includePk applyIgnore (i + 1) fs finfo c
      else if embedsStruct f
      then (case getFieldInfo NameMapper (f_Type f) includePk applyIgnore c of
              Panic \<Rightarrow> Panic
            | Returns (inner, c') \<Rightarrow>
                getFieldInfo_loop NameMapper includePk applyIgnore (i + 1) fs
                  (finfo ++ (\<lambda>k. map_option ((#) i) (inner k))) c')
      else getFieldInfo_loop NameMapper includePk applyIgnore (i + 1) fs
             (finfo(columnName NameMapper f \<mapsto> [i])) c)"
  by pat_completeness auto
termination
  by (relation "measure (\<lambda>x. case x of
                   Inl (nm, typ, ip, ai, c) \<Rightarrow> size typ
                 | Inr (nm, ip, ai, i, fs, finfo, c) \<Rightarrow> size_list size fs)")
     (auto simp: size_t_Fields less_Suc_eq trans_less_add1 size_f_Type)

text \<open>
  A \<^verbatim>\<open>range\<close> over a map visits every entry once, in an order the language leaves
  open. Where the order shows, the function takes the order as a parameter \<open>iter\<close>: the
  entries of the map in the order this \<^verbatim>\<open>range\<close> visits them.
\<close>

type_synonym range_order = "fieldInfo \<Rightarrow> (string \<times> nat list) list"

definition visits :: "range_order \<Rightarrow> fieldInfo \<Rightarrow> bool" where
  "visits iter m = (distinct (map fst (iter m)) \<and> map_of (iter m) = m)"

definition sorted_range :: range_order where
  \<comment> \<open>one of the orders a \<^verbatim>\<open>range\<close> may take: by increasing key\<close>
  "sorted_range m = map (\<lambda>k. (k, the (m k))) (sorted_list_of_set (dom m))"

fun itoa :: "nat \<Rightarrow> string" where
  \<comment> \<open>the verb \<^verbatim>\<open>%d\<close>\<close>
  "itoa n = (if n < 10 then [char_of (48 + n)] else itoa (n div 10) @ [char_of (48 + n mod 10)])"

definition pkMarked :: "sfield \<Rightarrow> bool" where
  \<comment> \<open>the field carries the primary-key marker: \<^verbatim>\<open>_, isPk := f.Tag.Lookup(AutoGenTagName)\<close>\<close>
  "pkMarked f = snd (Tag_Lookup (f_Tag f) AutoGenTagName)"

fun getPkFieldInfo_loop :: "nat \<Rightarrow> sfield list \<Rightarrow> fieldInfo \<Rightarrow> fieldInfo" where
  "getPkFieldInfo_loop i [] finfo = finfo"
| "getPkFieldInfo_loop i (f # fs) finfo =
     (let isPk = snd (Tag_Lookup (f_Tag f) AutoGenTagName)
      in if \<not> isPk then getPkFieldInfo_loop (i + 1) fs finfo
         else getPkFieldInfo_loop (i + 1) fs (finfo(f_Name f \<mapsto> [i])))"

definition first_entry :: "range_order \<Rightarrow> fieldInfo \<Rightarrow> string \<times> nat list \<times> error option" where
  \<comment> \<open>\<^verbatim>\<open>for col, idx := range finfo { return col, idx, nil }; return "", nil, nil\<close>\<close>
  "first_entry iter finfo =
     (case iter finfo of [] \<Rightarrow> ('''', [], None) | (col, idx) # _ \<Rightarrow> (col, idx, None))"

definition getPkFieldInfo ::
    "range_order \<Rightarrow> rtype \<Rightarrow> cache \<Rightarrow> ((string \<times> nat list \<times> error option) \<times> cache) outcome" where
  "getPkFieldInfo iter typ c =
     (case c (pkCacheKey typ) of
        Some finfo \<Rightarrow> Returns (first_entry iter finfo, c)
      | None \<Rightarrow>
          if t_Kind typ \<noteq> Struct then Panic
          else (let finfo = getPkFieldInfo_loop 0 (t_Fields typ) Map.empty
                in if card (dom finfo) \<noteq> 1
                   then Returns (('''', [],
                                  Some (''sqlp: expected exactly one primary key; got ''
                                        @ itoa (card (dom finfo)))), c)
                   else Returns (first_entry iter finfo, c)))"

definition getColumns ::
    "range_order \<Rightarrow> (string \<Rightarrow> string) \<Rightarrow> rtype \<Rightarrow> bool \<Rightarrow> bool \<Rightarrow> cache
       \<Rightarrow> (string list \<times> cache) outcome" where
  "getColumns iter NameMapper T includePk applyIgnore c =
     (case getFieldInfo NameMapper T includePk applyIgnore c of
        Panic \<Rightarrow> Panic
      | Returns (fields, c') \<Rightarrow> Returns (sort (map fst (iter fields)), c'))"

definition columns ::
    "range_order \<Rightarrow> (string \<Rightarrow> string) \<Rightarrow> rtype \<Rightarrow> cache \<Rightarrow> (string \<times> cache) outcome" where
  "columns iter NameMapper T c =
     (case getColumns iter NameMapper T True False c of
        Panic \<Rightarrow> Panic
      | Returns (names, c') \<Rightarrow> Returns (strings_Join names '', '', c'))"

subsection \<open>The row scanner\<close>

text \<open>
  A \<^verbatim>\<open>reflect.Value\<close> inside the destination, by what the scanner's calls depend on:
  its type and the two read-only flags that \<^verbatim>\<open>Field\<close> sets on the way to it. Both
  callers of \<^verbatim>\<open>doScan\<close> pass the address of a zero value (\<^verbatim>\<open>var stru T\<close>, the named
  result \<^verbatim>\<open>result T\<close>), so a pointer field is nil and a step of \<^verbatim>\<open>FieldByIndex\<close>
  through it panics, as a step through any other value that is not a struct does.
\<close>

datatype rvalue =
  RValue (v_typ: rtype)
         (flagStickyRO: bool)   \<comment> \<open>reached through an unexported field that is not embedded\<close>
         (flagEmbedRO: bool)    \<comment> \<open>is itself an unexported embedded field\<close>

definition Value_Field :: "rvalue \<Rightarrow> nat \<Rightarrow> rvalue option" where
  \<comment> \<open>\<^verbatim>\<open>v.Field(i)\<close>; \<open>None\<close> where it panics: on a value that is not a struct and on an
      index out of range. The field inherits \<^verbatim>\<open>flagStickyRO\<close>, not \<^verbatim>\<open>flagEmbedRO\<close>, and
      an unexported field (one with a \<^verbatim>\<open>PkgPath\<close>) sets one of the two.\<close>
  "Value_Field v i =
     (if t_Kind (v_typ v) \<noteq> Struct \<or> length (t_Fields (v_typ v)) \<le> i then None
      else (let field = t_Fields (v_typ v) ! i;
                exported = (f_PkgPath field = '''')
            in Some (RValue (f_Type field)
                       (flagStickyRO v \<or> (\<not> exported \<and> \<not> f_Anonymous field))
                       (\<not> exported \<and> f_Anonymous field))))"

fun FieldByIndex_loop :: "rvalue \<Rightarrow> nat list \<Rightarrow> rvalue option" where
  \<comment> \<open>\<^verbatim>\<open>for i, x := range index { ...; v = v.Field(x) }\<close>\<close>
  "FieldByIndex_loop v [] = Some v"
| "FieldByIndex_loop v (x # index) =
     (case Value_Field v x of
        None \<Rightarrow> None
      | Some v' \<Rightarrow> FieldByIndex_loop v' index)"

definition FieldByIndex :: "rvalue \<Rightarrow> nat list \<Rightarrow> rvalue option" where
  \<comment> \<open>\<^verbatim>\<open>v.FieldByIndex(index)\<close>:
      \<^verbatim>\<open>if len(index) == 1 { return v.Field(index[0]) }; v.mustBe(Struct); for ...\<close>\<close>
  "FieldByIndex v index =
     (if length index = 1 then Value_Field v (hd index)
      else if t_Kind (v_typ v) \<noteq> Struct then None
      else FieldByIndex_loop v index)"

datatype target =
    FieldAddr "nat list"   \<comment> \<open>\<^verbatim>\<open>elem.FieldByIndex(idx).Addr().Interface()\<close>\<close>
  | RawBytes               \<comment> \<open>\<^verbatim>\<open>&sql.RawBytes{}\<close>, a fresh sink\<close>

definition fieldPointer :: "rtype \<Rightarrow> nat list \<Rightarrow> target outcome" where
  \<comment> \<open>\<^verbatim>\<open>elem.FieldByIndex(idx).Addr().Interface()\<close> for \<^verbatim>\<open>elem := destv.Elem()\<close>, which
      is addressable and carries no read-only flag. \<^verbatim>\<open>Addr\<close> keeps the flags, and
      \<^verbatim>\<open>Interface\<close> panics on a value with one of them: "cannot return value obtained
      from unexported field or method".\<close>
  "fieldPointer T idx =
     (case FieldByIndex (RValue T False False) idx of
        None \<Rightarrow> Panic
      | Some v \<Rightarrow> if flagStickyRO v \<or> flagEmbedRO v then Panic else Returns (FieldAddr idx))"

record 'm Rows =
  Rows_Columns :: "string list \<times> error option"
  Rows_Scan :: "target list \<Rightarrow> 'm \<Rightarrow> error option \<times> 'm"
    \<comment> \<open>what \<^verbatim>\<open>rows.Scan\<close> returns and what it does to the destination, whose state is \<open>'m\<close>\<close>

datatype rows_call = CallColumns | CallScan "target list"

fun doScan_loop ::
    "(string \<Rightarrow> string) \<Rightarrow> rtype \<Rightarrow> fieldInfo \<Rightarrow> string list \<Rightarrow> target list \<Rightarrow> target list outcome" where
  "doScan_loop NameMapper T fInfo [] ptrsToScanInto = Returns ptrsToScanInto"
| "doScan_loop NameMapper T fInfo (cName # cols) ptrsToScanInto =
     (case fInfo (NameMapper cName) of
        Some idx \<Rightarrow>
          (case fieldPointer T idx of
             Panic \<Rightarrow> Panic
           | Returns v \<Rightarrow> doScan_loop NameMapper T fInfo cols (ptrsToScanInto @ [v]))
      | None \<Rightarrow> doScan_loop NameMapper T fInfo cols (ptrsToScanInto @ [RawBytes]))"

definition scan_target :: "(string \<Rightarrow> string) \<Rightarrow> fieldInfo \<Rightarrow> string \<Rightarrow> target" where
  \<comment> \<open>the target the loop of \<^verbatim>\<open>doScan\<close> builds for one reported column, when taking
      the field's pointer does not panic\<close>
  "scan_target nm fInfo cName =
     (case fInfo (nm cName) of Some idx \<Rightarrow> FieldAddr idx | None \<Rightarrow> RawBytes)"

definition doScan ::
    "(string \<Rightarrow> string) \<Rightarrow> rtype \<Rightarrow> 'm Rows \<Rightarrow> 'm \<Rightarrow> cache
       \<Rightarrow> (error option \<times> 'm \<times> cache \<times> rows_call list) outcome" where
  \<comment> \<open>\<open>T\<close> is the type parameter and \<open>dest\<close> the state of \<^verbatim>\<open>*dest\<close>; the last component
      lists the calls made on \<^verbatim>\<open>rows\<close>, in order\<close>
  "doScan NameMapper T rows dest c =
     (if t_Kind T \<noteq> Struct
      then Returns (Some ''dest must be pointer to struct; got reflect.Value'', dest, c, [])
      else (case getFieldInfo NameMapper T True False c of
              Panic \<Rightarrow> Panic
            | Returns (fInfo, c') \<Rightarrow>
                (case Rows_Columns rows of
                   (cols, Some err) \<Rightarrow> Returns (Some err, dest, c', [CallColumns])
                 | (cols, None) \<Rightarrow>
                     (case doScan_loop NameMapper T fInfo cols [] of
                        Panic \<Rightarrow> Panic
                      | Returns ptrsToScanInto \<Rightarrow>
                          (let (err, dest') = Rows_Scan rows ptrsToScanInto dest
                           in Returns (err, dest', c', [CallColumns, CallScan ptrsToScanInto]))))))"

text \<open>
  A cursor for the examples, after \<^verbatim>\<open>sql.Rows\<close>: on a row with the values \<open>vals\<close>,
  \<^verbatim>\<open>Scan\<close> refuses a target list of another length and otherwise stores the value of
  column number \<open>i\<close> through target number \<open>i\<close>. The destination is the value held at
  each field path.
\<close>

fun Scan_store :: "'v list \<Rightarrow> target list \<Rightarrow> (nat list \<Rightarrow> 'v) \<Rightarrow> (nat list \<Rightarrow> 'v)" where
  "Scan_store (v # vs) (FieldAddr p # ts) d = Scan_store vs ts (d(p := v))"
| "Scan_store (v # vs) (RawBytes # ts) d = Scan_store vs ts d"
| "Scan_store vs ts d = d"

definition sql_Rows :: "string list \<Rightarrow> 'v list \<Rightarrow> (nat list \<Rightarrow> 'v) Rows" where
  "sql_Rows cols vals =
     \<lparr> Rows_Columns = (cols, None),
       Rows_Scan = (\<lambda>ts d. if length ts \<noteq> length vals
                             then (Some (''sql: expected '' @ itoa (length vals)
                                         @ '' destination arguments in Scan, not ''
                                         @ itoa (length ts)), d)
                             else (None, Scan_store vals ts d)) \<rparr>"

subsection \<open>The query functions\<close>

text \<open>
  The database handle \<^verbatim>\<open>db *sql.DB\<close> is \<open>None\<close> when nil; otherwise it is what
  \<^verbatim>\<open>db.Query\<close> answers: an error, or a cursor. For the basic-type queries a cursor is the
  list of its rows, each row being what \<^verbatim>\<open>rows.Scan(&data)\<close> gives for it (an error or
  the value), and the error of \<^verbatim>\<open>rows.Close()\<close>. Every function returns the list of the
  queries it sent to the database, in order. Each function is in two parts: the part up
  to the call of \<^verbatim>\<open>db.Query\<close>, and the part from that call on, named \<open>_query\<close>.
\<close>

type_synonym 'r sqlDB = "(string \<Rightarrow> gval list \<Rightarrow> error + 'r) option"

datatype 'v basic_rows = BasicRows (rows_Scans: "(error + 'v) list") (rows_Close: "error option")

definition ErrNotSet :: error where "ErrNotSet = ''sqlp: database not set''"
definition ErrNoRows :: error where "ErrNoRows = ''sql: no rows in result set''"

definition joinOrErr :: "error option \<Rightarrow> error option \<Rightarrow> error option" where
  \<comment> \<open>\<^verbatim>\<open>errors.Join\<close> puts a newline between the two messages\<close>
  "joinOrErr err nErr =
     (case nErr of
        None \<Rightarrow> err
      | Some n \<Rightarrow> (case err of None \<Rightarrow> Some n | Some e \<Rightarrow> Some (e @ [CHR 0x0A] @ n)))"

fun QueryBasicDb_loop :: "(error + 'v) list \<Rightarrow> 'v list \<Rightarrow> 'v list \<times> error option" where
  \<comment> \<open>\<^verbatim>\<open>for rows.Next() { ... }\<close>: stops at the first row that does not scan\<close>
  "QueryBasicDb_loop [] results = (results, None)"
| "QueryBasicDb_loop (Inl err # rest) results = (results, Some err)"
| "QueryBasicDb_loop (Inr data # rest) results = QueryBasicDb_loop rest (results @ [data])"

definition QueryBasicDb_query ::
    "'v basic_rows sqlDB \<Rightarrow> string \<Rightarrow> gval list
       \<Rightarrow> ('v list \<times> error option \<times> (string \<times> gval list) list) outcome" where
  \<comment> \<open>\<^verbatim>\<open>db.Query\<close> on a nil handle dereferences it; the deferred function joins the error
      of \<^verbatim>\<open>rows.Close()\<close>\<close>
  "QueryBasicDb_query db query args =
     (case db of
        None \<Rightarrow> Panic
      | Some dbQuery \<Rightarrow>
          (case dbQuery query args of
             Inl err \<Rightarrow> Returns ([], Some err, [(query, args)])
           | Inr rows \<Rightarrow>
               (let (results, err) = QueryBasicDb_loop (rows_Scans rows) []
                in Returns (results, joinOrErr err (rows_Close rows), [(query, args)]))))"

definition QueryBasicDb ::
    "'v basic_rows sqlDB \<Rightarrow> string \<Rightarrow> gval list
       \<Rightarrow> ('v list \<times> error option \<times> (string \<times> gval list) list) outcome" where
  "QueryBasicDb db query args =
     (if strings_Contains query InQueryReplace
      then (if length args = 0
            then Returns ([], None, [])
            else (case InQuery query args of
                    Panic \<Rightarrow> Panic
                  | Returns (query', args', Some err) \<Rightarrow> Returns ([], Some err, [])
                  | Returns (query', args', None) \<Rightarrow> QueryBasicDb_query db query' args'))
      else QueryBasicDb_query db query args)"

definition QueryBasicRowDb_query ::
    "'v \<Rightarrow> 'v basic_rows sqlDB \<Rightarrow> string \<Rightarrow> gval list
       \<Rightarrow> ('v \<times> error option \<times> (string \<times> gval list) list) outcome" where
  "QueryBasicRowDb_query zero db query args =
     (case db of
        None \<Rightarrow> Panic
      | Some dbQuery \<Rightarrow>
          (case dbQuery query args of
             Inl err \<Rightarrow> Returns (zero, Some err, [(query, args)])
           | Inr rows \<Rightarrow>
               (case rows_Scans rows of
                  [] \<Rightarrow> Returns (zero, joinOrErr (Some ErrNoRows) (rows_Close rows),
                                 [(query, args)])
                | Inl err # _ \<Rightarrow> Returns (zero, joinOrErr (Some err) (rows_Close rows),
                                           [(query, args)])
                | Inr result # _ \<Rightarrow> Returns (result, joinOrErr None (rows_Close rows),
                                              [(query, args)]))))"

definition QueryBasicRowDb ::
    "'v \<Rightarrow> 'v basic_rows sqlDB \<Rightarrow> string \<Rightarrow> gval list
       \<Rightarrow> ('v \<times> error option \<times> (string \<times> gval list) list) outcome" where
  \<comment> \<open>\<open>zero\<close> is the zero value of the type parameter\<close>
  "QueryBasicRowDb zero db query args =
     (if strings_Contains query InQueryReplace
      then (if length args = 0
            then Returns (zero, None, [])
            else (case InQuery query args of
                    Panic \<Rightarrow> Panic
                  | Returns (query', args', Some err) \<Rightarrow> Returns (zero, Some err, [])
                  | Returns (query', args', None) \<Rightarrow> QueryBasicRowDb_query zero db query' args'))
      else QueryBasicRowDb_query zero db query args)"

definition doQueryDb_query ::
    "(string \<Rightarrow> gval list \<Rightarrow> error + 'r) \<Rightarrow> string \<Rightarrow> gval list \<Rightarrow> cache
       \<Rightarrow> ('r option \<times> error option \<times> (string \<times> gval list) list \<times> cache) outcome" where
  "doQueryDb_query dbQuery query args c =
     (case dbQuery query args of
        Inl err \<Rightarrow> Returns (None, Some err, [(query, args)], c)
      | Inr rows \<Rightarrow> Returns (Some rows, None, [(query, args)], c))"

definition doQueryDb ::
    "range_order \<Rightarrow> (string \<Rightarrow> string) \<Rightarrow> rtype \<Rightarrow> 'r sqlDB \<Rightarrow> string \<Rightarrow> gval list \<Rightarrow> cache
       \<Rightarrow> ('r option \<times> error option \<times> (string \<times> gval list) list \<times> cache) outcome" where
  \<comment> \<open>\<open>T\<close> is the type parameter; the cursor returned is \<open>None\<close> when nil. The argument
      \<^verbatim>\<open>"SELECT "+columns[T]()\<close> is evaluated before \<^verbatim>\<open>strings.Replace\<close> is called.\<close>
  "doQueryDb iter NameMapper T db query args c =
     (case db of
        None \<Rightarrow> Returns (None, Some ErrNotSet, [], c)
      | Some dbQuery \<Rightarrow>
          (case columns iter NameMapper T c of
             Panic \<Rightarrow> Panic
           | Returns (cols, c') \<Rightarrow>
               (let query1 = strings_Replace1 query QueryReplace (''SELECT '' @ cols)
                in if strings_Contains query1 InQueryReplace
                   then (if length args = 0
                         then Returns (None, None, [], c')
                         else (case InQuery query1 args of
                                 Panic \<Rightarrow> Panic
                               | Returns (query', args', Some err) \<Rightarrow>
                                   Returns (None, Some err, [], c')
                               | Returns (query', args', None) \<Rightarrow>
                                   doQueryDb_query dbQuery query' args' c'))
                   else doQueryDb_query dbQuery query1 args c')))"

subsection \<open>Properties of a cache\<close>

definition cache_finite :: "cache \<Rightarrow> bool" where
  \<comment> \<open>every map in the cache has finitely many keys, as every Go map has\<close>
  "cache_finite c = (\<forall>k f. c k = Some f \<longrightarrow> finite (dom f))"

definition paths_ok :: "rtype \<Rightarrow> fieldInfo \<Rightarrow> bool" where
  \<comment> \<open>every path of the metadata leads to a field of the type whose pointer the scanner
      can take\<close>
  "paths_ok T f = (\<forall>p\<in>ran f. fieldPointer T p = Returns (FieldAddr p))"

definition cache_ok :: "rtype set \<Rightarrow> cache \<Rightarrow> bool" where
  \<comment> \<open>the entries for the types of \<open>U\<close> hold field paths of their type\<close>
  "cache_ok U c = (\<forall>T\<in>U. \<forall>ip ai f. c (cacheKey T ip ai) = Some f \<longrightarrow> paths_ok T f)"

definition closed_types :: "rtype set \<Rightarrow> bool" where
  \<comment> \<open>the types of \<open>U\<close> have different printed names, and the struct types they embed
      are in \<open>U\<close>\<close>
  "closed_types U =
     (inj_on t_String U \<and>
      (\<forall>T\<in>U. \<forall>f\<in>set (t_Fields T). embedsStruct f \<longrightarrow> f_Type f \<in> U))"

section \<open>Facts about the string helpers\<close>

lemma strings_Index_le: "strings_Index s sub \<le> int (length s)"
  by (induction s) (auto simp: Let_def)

lemma strings_Count_Nil [simp]: "strings_Count s [] = 0"
  by (induction s) auto

lemma strings_Count_char: "strings_Count s [c] = count_list s c"
  by (induction s) auto

lemma strings_Index_neg_iff:
  "sub \<noteq> [] \<Longrightarrow> (strings_Index s sub < 0) = (strings_Count s sub = 0)"
  by (induction s) (auto simp: Let_def)

text \<open>Where \<open>strings_Index\<close> is not negative, the needle stands at that offset.\<close>

lemma strings_Index_split:
  "0 \<le> strings_Index s sub \<Longrightarrow>
     s = take (nat (strings_Index s sub)) s @ sub @ drop (nat (strings_Index s sub) + length sub) s"
proof (induction s)
  case Nil
  then show ?case by (auto split: if_splits)
next
  case (Cons c s)
  show ?case
  proof (cases "prefix sub (c # s)")
    case True
    then show ?thesis by (auto simp: prefix_def)
  next
    case False
    with Cons.prems have r: "0 \<le> strings_Index s sub"
      by (auto simp: Let_def split: if_splits)
    with False have e: "strings_Index (c # s) sub = strings_Index s sub + 1"
      by (auto simp: Let_def)
    have "nat (strings_Index s sub + 1) = Suc (nat (strings_Index s sub))"
      using r by simp
    with Cons.IH[OF r] e show ?thesis by simp
  qed
qed

text \<open>... and it stands nowhere before that offset.\<close>

lemma strings_Index_first:
  "0 \<le> strings_Index s sub \<Longrightarrow> j < nat (strings_Index s sub) \<Longrightarrow> \<not> prefix sub (drop j s)"
proof (induction s arbitrary: j)
  case Nil
  then show ?case by (auto split: if_splits)
next
  case (Cons c s)
  show ?case
  proof (cases "prefix sub (c # s)")
    case True
    with Cons.prems show ?thesis by simp
  next
    case False
    with Cons.prems have r: "0 \<le> strings_Index s sub"
      by (auto simp: Let_def split: if_splits)
    with False have e: "strings_Index (c # s) sub = strings_Index s sub + 1"
      by (auto simp: Let_def)
    show ?thesis
    proof (cases j)
      case 0
      with False show ?thesis by simp
    next
      case (Suc k)
      with Cons.prems e r have "k < nat (strings_Index s sub)" by simp
      from Cons.IH[OF r this] Suc show ?thesis by simp
    qed
  qed
qed

lemma strings_Replace1_split:
  assumes a: "0 \<le> strings_Index s old"
  shows "\<exists>pre post. s = pre @ old @ post \<and> length pre = nat (strings_Index s old) \<and>
      (\<forall>new. strings_Replace1 s old new = pre @ new @ post)"
proof -
  let ?i = "nat (strings_Index s old)"
  have s: "s = take ?i s @ old @ drop (?i + length old) s" by (rule strings_Index_split[OF a])
  have l: "?i \<le> length s" using strings_Index_le[of s old] a by simp
  have r: "\<forall>new. strings_Replace1 s old new = take ?i s @ new @ drop (?i + length old) s"
    using a by (simp add: strings_Replace1_def Let_def)
  from s l r show ?thesis
    by (intro exI[of _ "take ?i s"] exI[of _ "drop (?i + length old) s"]) simp
qed

lemma strings_Replace1_absent:
  "strings_Index s old < 0 \<Longrightarrow> strings_Replace1 s old new = s"
  by (simp add: strings_Replace1_def)

text \<open>\<open>BuildPlaceholders n\<close> is \<open>n\<close> question marks separated by a comma and a space.\<close>

lemma BuildPlaceholders_Join: "BuildPlaceholders n = strings_Join (replicate n ''?'') '', ''"
proof (induction n rule: less_induct)
  case (less n)
  show ?case
  proof (cases n)
    case 0
    then show ?thesis
      by (simp add: BuildPlaceholders_def strings_Repeat_def strings_TrimPrefix_def)
  next
    case (Suc m)
    note m = this
    show ?thesis
    proof (cases m)
      case 0
      with m show ?thesis
        by (simp add: BuildPlaceholders_def strings_Repeat_def strings_TrimPrefix_def)
    next
      case (Suc k)
      have "BuildPlaceholders m = strings_Join (replicate m ''?'') '', ''" using less m by simp
      with m Suc show ?thesis
        by (simp add: BuildPlaceholders_def strings_Repeat_def strings_TrimPrefix_def)
    qed
  qed
qed

section \<open>The IN-clause expander\<close>

text \<open>
  A template with exactly one marker splits around it; \<open>argIndexOf\<close> is the number of
  question marks in the part before the marker, and replacing the marker puts the new
  text between the two parts.
\<close>

lemma InQuery_shape:
  assumes one: "strings_Count q InQueryReplace = 1"
  shows "\<exists>pre post. q = pre @ InQueryReplace @ post \<and>
           argIndexOf q = count_list pre (CHR ''?'') \<and>
           (\<forall>new. strings_Replace1 q InQueryReplace new = pre @ new @ post)"
proof -
  have ne: "InQueryReplace \<noteq> []" by (simp add: InQueryReplace_def)
  have a: "0 \<le> strings_Index q InQueryReplace"
    using strings_Index_neg_iff[OF ne, of q] one by simp
  from strings_Replace1_split[OF a] obtain pre post where
    q: "q = pre @ InQueryReplace @ post" and
    l: "length pre = nat (strings_Index q InQueryReplace)" and
    r: "\<forall>new. strings_Replace1 q InQueryReplace new = pre @ new @ post"
    by blast
  have n: "nat (strings_Index q InQueryReplace + 1) = Suc (length pre)"
    using a l by simp
  have "take (Suc (length pre)) q = pre @ ''I''"
    by (subst q) (simp add: InQueryReplace_def)
  then have "argIndexOf q = count_list pre (CHR ''?'')"
    by (simp add: argIndexOf_def n strings_Count_char)
  with q r show ?thesis by blast
qed

text \<open>
  C1. The template holds exactly one IN-marker and at least one question mark, and the
  argument list reaches the marker's position \<open>argIndexOf q\<close> (the number of question
  marks before the marker). When the argument there is a slice or an array with elements
  \<open>xs\<close>, the call returns without error: the marker is replaced by \<open>= FALSE\<close> when
  \<open>xs\<close> is empty and by \<open>IN (?, ..., ?)\<close> with one question mark per element otherwise,
  and the returned arguments are the ones before that position, then \<open>xs\<close>, then the
  ones after it (so an empty \<open>xs\<close> just removes the argument).
\<close>

theorem InQuery_flatten:
  assumes one: "strings_Count q InQueryReplace = 1"
      and qm: "1 \<le> strings_Count q ''?''"
      and len: "argIndexOf q < length args"
      and seq: "args ! argIndexOf q = VSlice xs \<or> args ! argIndexOf q = VArray xs"
  shows "\<exists>pre post. q = pre @ InQueryReplace @ post \<and>
           argIndexOf q = count_list pre (CHR ''?'') \<and>
           InQuery q args = Returns
             (pre @ (if xs = [] then ''= FALSE''
                     else ''IN ('' @ strings_Join (replicate (length xs) ''?'') '', '' @ '')'') @ post,
              take (argIndexOf q) args @ xs @ drop (Suc (argIndexOf q)) args,
              None)"
proof -
  from InQuery_shape[OF one] obtain pre post where
    q: "q = pre @ InQueryReplace @ post" and
    i: "argIndexOf q = count_list pre (CHR ''?'')" and
    r: "\<forall>new. strings_Replace1 q InQueryReplace new = pre @ new @ post"
    by blast
  have t: "ToAny (args ! argIndexOf q) = Returns xs" using seq by auto
  have "InQuery q args = Returns
             (pre @ (if xs = [] then ''= FALSE''
                     else ''IN ('' @ strings_Join (replicate (length xs) ''?'') '', '' @ '')'') @ post,
              take (argIndexOf q) args @ xs @ drop (Suc (argIndexOf q)) args,
              None)"
    using one qm len t r
    by (simp add: InQuery_def Let_def replaceWithFlatten_def BuildPlaceholders_Join)
  with q i show ?thesis by blast
qed

theorem InQuery_flatten_witness:
  "strings_Count ''DELETE FROM t WHERE id=? AND name IN (*) AND x=?'' InQueryReplace = 1 \<and>
   1 \<le> strings_Count ''DELETE FROM t WHERE id=? AND name IN (*) AND x=?'' ''?'' \<and>
   argIndexOf ''DELETE FROM t WHERE id=? AND name IN (*) AND x=?'' = 1 \<and>
   (\<exists>pre post. ''DELETE FROM t WHERE id=? AND name IN (*) AND x=?'' = pre @ InQueryReplace @ post \<and>
      InQuery ''DELETE FROM t WHERE id=? AND name IN (*) AND x=?''
              [VInt 0, VSlice [VInt 1, VInt 2, VInt 3], VInt 9] =
        Returns (pre @ ''IN (?, ?, ?)'' @ post, [VInt 0, VInt 1, VInt 2, VInt 3, VInt 9], None))"
proof -
  let ?q = "''DELETE FROM t WHERE id=? AND name IN (*) AND x=?''"
  let ?args = "[VInt 0, VSlice [VInt 1, VInt 2, VInt 3], VInt 9]"
  have one: "strings_Count ?q InQueryReplace = 1" by (simp add: InQueryReplace_def)
  have qm: "1 \<le> strings_Count ?q ''?''" by simp
  have ai: "argIndexOf ?q = 1" by (simp add: argIndexOf_def InQueryReplace_def Let_def)
  have len: "argIndexOf ?q < length ?args" by (simp add: ai)
  have seq: "?args ! argIndexOf ?q = VSlice [VInt 1, VInt 2, VInt 3]
             \<or> ?args ! argIndexOf ?q = VArray [VInt 1, VInt 2, VInt 3]"
    by (simp add: ai)
  from InQuery_flatten[OF one qm len seq] obtain pre post where
    q: "?q = pre @ InQueryReplace @ post" and
    r: "InQuery ?q ?args = Returns
          (pre @ (if [VInt 1, VInt 2, VInt 3] = [] then ''= FALSE''
                  else ''IN ('' @ strings_Join (replicate (length [VInt 1, VInt 2, VInt 3]) ''?'') '', ''
                       @ '')'') @ post,
           take (argIndexOf ?q) ?args @ [VInt 1, VInt 2, VInt 3] @ drop (Suc (argIndexOf ?q)) ?args,
           None)"
    by blast
  have e: "(if [VInt 1, VInt 2, VInt 3] = [] then ''= FALSE''
            else ''IN ('' @ strings_Join (replicate (length [VInt 1, VInt 2, VInt 3]) ''?'') '', ''
                 @ '')'')
           = ''IN (?, ?, ?)''"
    by (simp add: numeral_3_eq_3)
  have a: "take (argIndexOf ?q) ?args @ [VInt 1, VInt 2, VInt 3] @ drop (Suc (argIndexOf ?q)) ?args
           = [VInt 0, VInt 1, VInt 2, VInt 3, VInt 9]"
    by (simp add: ai)
  from r have r': "InQuery ?q ?args =
      Returns (pre @ ''IN (?, ?, ?)'' @ post, [VInt 0, VInt 1, VInt 2, VInt 3, VInt 9], None)"
    unfolding e a .
  from one qm ai q r' show ?thesis by blast
qed

text \<open>
  C2, as the code has it. The count of question marks plus the count of IN-markers is 1.
  The code looks at the first argument only. With no argument, and with a first argument
  that is an empty slice or array, the marker is replaced by \<open>= FALSE\<close> and no argument
  is returned; with a first argument that is a non-empty slice or array, the marker is
  replaced by \<open>IN (?, ..., ?)\<close> with one question mark per element and the elements of
  that argument are returned, whatever arguments follow it; and when the first argument
  is not a slice or array (a scalar sole argument, or several flat arguments), the marker
  is replaced by \<open>IN (?, ..., ?)\<close> with one question mark per argument and the
  arguments are returned as they are. Where the template holds the marker, replacing it
  puts the new text in the marker's place.
\<close>

theorem InQuery_sole:
  assumes sole: "strings_Count q ''?'' + strings_Count q InQueryReplace = 1"
  shows "InQuery q [] = Returns (strings_Replace1 q InQueryReplace ''= FALSE'', [], None) \<and>
         InQuery q (VSlice [] # rest) =
           Returns (strings_Replace1 q InQueryReplace ''= FALSE'', [], None) \<and>
         InQuery q (VArray [] # rest) =
           Returns (strings_Replace1 q InQueryReplace ''= FALSE'', [], None) \<and>
         (xs \<noteq> [] \<longrightarrow>
            InQuery q (VSlice xs # rest) = Returns
              (strings_Replace1 q InQueryReplace
                 (''IN ('' @ strings_Join (replicate (length xs) ''?'') '', '' @ '')''), xs, None) \<and>
            InQuery q (VArray xs # rest) = Returns
              (strings_Replace1 q InQueryReplace
                 (''IN ('' @ strings_Join (replicate (length xs) ''?'') '', '' @ '')''), xs, None)) \<and>
         (\<not> is_list a \<longrightarrow>
            InQuery q (a # rest) = Returns
              (strings_Replace1 q InQueryReplace
                 (''IN ('' @ strings_Join (replicate (length (a # rest)) ''?'') '', '' @ '')''),
               a # rest, None)) \<and>
         (strings_Count q InQueryReplace = 1 \<longrightarrow>
            (\<exists>pre post. q = pre @ InQueryReplace @ post \<and>
               (\<forall>new. strings_Replace1 q InQueryReplace new = pre @ new @ post)))"
proof -
  have c: "\<not> 1 < strings_Count q InQueryReplace" using sole by simp
  have e: "InQuery q [] = Returns (strings_Replace1 q InQueryReplace ''= FALSE'', [], None)"
    using sole c by (simp add: InQuery_def)
  have s0: "InQuery q (VSlice [] # rest) =
              Returns (strings_Replace1 q InQueryReplace ''= FALSE'', [], None)"
    using sole c by (simp add: InQuery_def)
  have a0: "InQuery q (VArray [] # rest) =
              Returns (strings_Replace1 q InQueryReplace ''= FALSE'', [], None)"
    using sole c by (simp add: InQuery_def)
  have sn: "xs \<noteq> [] \<longrightarrow>
            InQuery q (VSlice xs # rest) = Returns
              (strings_Replace1 q InQueryReplace
                 (''IN ('' @ strings_Join (replicate (length xs) ''?'') '', '' @ '')''), xs, None) \<and>
            InQuery q (VArray xs # rest) = Returns
              (strings_Replace1 q InQueryReplace
                 (''IN ('' @ strings_Join (replicate (length xs) ''?'') '', '' @ '')''), xs, None)"
    using sole c by (simp add: InQuery_def BuildPlaceholders_Join)
  have fl: "\<not> is_list a \<longrightarrow>
            InQuery q (a # rest) = Returns
              (strings_Replace1 q InQueryReplace
                 (''IN ('' @ strings_Join (replicate (length (a # rest)) ''?'') '', '' @ '')''),
               a # rest, None)"
    using sole c by (simp add: InQuery_def BuildPlaceholders_Join)
  have sh: "strings_Count q InQueryReplace = 1 \<longrightarrow>
            (\<exists>pre post. q = pre @ InQueryReplace @ post \<and>
               (\<forall>new. strings_Replace1 q InQueryReplace new = pre @ new @ post))"
    using InQuery_shape[of q] by blast
  from e s0 a0 sn fl sh show ?thesis by blast
qed

theorem InQuery_sole_witness:
  "strings_Count ''DELETE FROM t WHERE id IN (*)'' ''?''
     + strings_Count ''DELETE FROM t WHERE id IN (*)'' InQueryReplace = 1 \<and>
   InQuery ''DELETE FROM t WHERE id IN (*)'' [] =
     Returns (''DELETE FROM t WHERE id = FALSE'', [], None) \<and>
   InQuery ''DELETE FROM t WHERE id IN (*)'' [VSlice []] =
     Returns (''DELETE FROM t WHERE id = FALSE'', [], None) \<and>
   InQuery ''DELETE FROM t WHERE id IN (*)'' [VSlice [], VInt 9] =
     Returns (''DELETE FROM t WHERE id = FALSE'', [], None) \<and>
   InQuery ''DELETE FROM t WHERE id IN (*)'' [VSlice [VInt 4, VInt 5]] =
     Returns (''DELETE FROM t WHERE id IN (?, ?)'', [VInt 4, VInt 5], None) \<and>
   InQuery ''DELETE FROM t WHERE id IN (*)'' [VArray [VInt 4, VInt 5], VInt 9] =
     Returns (''DELETE FROM t WHERE id IN (?, ?)'', [VInt 4, VInt 5], None) \<and>
   InQuery ''DELETE FROM t WHERE id IN (*)'' [VInt 1, VInt 2, VInt 3] =
     Returns (''DELETE FROM t WHERE id IN (?, ?, ?)'', [VInt 1, VInt 2, VInt 3], None)"
proof -
  let ?q = "''DELETE FROM t WHERE id IN (*)''"
  have sole: "strings_Count ?q ''?'' + strings_Count ?q InQueryReplace = 1"
    by (simp add: InQueryReplace_def)
  have r: "\<And>new. strings_Replace1 ?q InQueryReplace new = ''DELETE FROM t WHERE id '' @ new"
    by (simp add: strings_Replace1_def InQueryReplace_def Let_def)
  have n: "[VInt 4, VInt 5] \<noteq> []" "\<not> is_list (VInt 1)" by simp_all
  note t = InQuery_sole[OF sole, of "[]" "[VInt 4, VInt 5]" "VInt 1"]
  note u = InQuery_sole[OF sole, of "[VInt 9]" "[VInt 4, VInt 5]" "VInt 1"]
  note w = InQuery_sole[OF sole, of "[VInt 2, VInt 3]" "[VInt 4, VInt 5]" "VInt 1"]
  from t have 1: "InQuery ?q [] = Returns (''DELETE FROM t WHERE id = FALSE'', [], None)"
    by (simp add: r)
  from t have 2: "InQuery ?q [VSlice []] = Returns (''DELETE FROM t WHERE id = FALSE'', [], None)"
    by (simp add: r)
  from u have 3: "InQuery ?q [VSlice [], VInt 9] =
      Returns (''DELETE FROM t WHERE id = FALSE'', [], None)"
    by (simp add: r)
  from t n have 4: "InQuery ?q [VSlice [VInt 4, VInt 5]] =
      Returns (''DELETE FROM t WHERE id IN (?, ?)'', [VInt 4, VInt 5], None)"
    by (simp add: r numeral_2_eq_2)
  from u n have 5: "InQuery ?q [VArray [VInt 4, VInt 5], VInt 9] =
      Returns (''DELETE FROM t WHERE id IN (?, ?)'', [VInt 4, VInt 5], None)"
    by (simp add: r numeral_2_eq_2)
  from w n have 6: "InQuery ?q [VInt 1, VInt 2, VInt 3] =
      Returns (''DELETE FROM t WHERE id IN (?, ?, ?)'', [VInt 1, VInt 2, VInt 3], None)"
    by (simp add: r numeral_2_eq_2)
  from sole 1 2 3 4 5 6 show ?thesis by blast
qed

text \<open>
  The specification sends every argument list that is not one sole slice or array to its
  last case, where the arguments come back as they are, one question mark each. For a
  slice followed by a further argument the code returns the elements of the slice and
  not the two arguments.
\<close>

theorem InQuery_sole_counterexample:
  "strings_Count ''id IN (*)'' ''?'' + strings_Count ''id IN (*)'' InQueryReplace = 1 \<and>
   InQuery ''id IN (*)'' [VSlice [VInt 1, VInt 2, VInt 3], VInt 5]
     = Returns (''id IN (?, ?, ?)'', [VInt 1, VInt 2, VInt 3], None) \<and>
   InQuery ''id IN (*)'' [VSlice [VInt 1, VInt 2, VInt 3], VInt 5]
     \<noteq> Returns (''id IN (?, ?)'', [VSlice [VInt 1, VInt 2, VInt 3], VInt 5], None)"
  by (simp add: InQuery_def InQueryReplace_def strings_Replace1_def BuildPlaceholders_def
        strings_Repeat_def strings_TrimPrefix_def Let_def numeral_3_eq_3)

text \<open>
  C3. A template that holds the IN-marker more than once is rejected whatever the
  arguments are: the call returns the error "sqlp: only one in query is supported"
  with an empty template and no arguments. It is the first check of the function.
\<close>

theorem InQuery_two_markers:
  assumes "1 < strings_Count q InQueryReplace"
  shows "InQuery q args = Returns ('''', [], Some ''sqlp: only one in query is supported'')"
  using assms by (simp add: InQuery_def)

theorem InQuery_two_markers_witness:
  "1 < strings_Count ''a IN (*) OR b IN (*)'' InQueryReplace \<and>
   InQuery ''a IN (*) OR b IN (*)'' [VSlice [VInt 1], VSlice [VInt 2]] =
     Returns ('''', [], Some ''sqlp: only one in query is supported'')"
proof -
  have h: "1 < strings_Count ''a IN (*) OR b IN (*)'' InQueryReplace"
    by (simp add: InQueryReplace_def)
  from InQuery_two_markers[OF h] h show ?thesis by blast
qed

text \<open>
  C7. The template holds exactly one IN-marker and at least one question mark. Then
  \<open>argIndexOf q\<close> is the number of question marks before the marker, the call returns
  an error exactly when the argument list has fewer than \<open>argIndexOf q + 1\<close> elements,
  and the error is then "sqlp: not enough arguments for in query", with an empty
  template and no arguments.
\<close>

theorem InQuery_arity:
  assumes one: "strings_Count q InQueryReplace = 1"
      and qm: "1 \<le> strings_Count q ''?''"
  shows "\<exists>pre post. q = pre @ InQueryReplace @ post \<and>
           argIndexOf q = count_list pre (CHR ''?'') \<and>
           ((\<exists>t a e. InQuery q args = Returns (t, a, Some e)) = (length args < argIndexOf q + 1)) \<and>
           (length args < argIndexOf q + 1 \<longrightarrow>
              InQuery q args = Returns ('''', [], Some ''sqlp: not enough arguments for in query''))"
proof -
  from InQuery_shape[OF one] obtain pre post where
    q: "q = pre @ InQueryReplace @ post" and
    i: "argIndexOf q = count_list pre (CHR ''?'')"
    by blast
  have short: "length args < argIndexOf q + 1 \<longrightarrow>
      InQuery q args = Returns ('''', [], Some ''sqlp: not enough arguments for in query'')"
    using one qm by (simp add: InQuery_def Let_def)
  have long: "\<not> length args < argIndexOf q + 1 \<Longrightarrow>
      \<not> (\<exists>t a e. InQuery q args = Returns (t, a, Some e))"
    using one qm
    by (auto simp: InQuery_def Let_def replaceWithFlatten_def split: outcome.splits)
  from short long have
    "(\<exists>t a e. InQuery q args = Returns (t, a, Some e)) = (length args < argIndexOf q + 1)"
    by blast
  with q i short show ?thesis by blast
qed

theorem InQuery_arity_witness:
  "strings_Count ''UPDATE t SET a=? WHERE b=? AND c IN (*)'' InQueryReplace = 1 \<and>
   1 \<le> strings_Count ''UPDATE t SET a=? WHERE b=? AND c IN (*)'' ''?'' \<and>
   argIndexOf ''UPDATE t SET a=? WHERE b=? AND c IN (*)'' = 2 \<and>
   InQuery ''UPDATE t SET a=? WHERE b=? AND c IN (*)'' [VInt 1, VInt 2] =
     Returns ('''', [], Some ''sqlp: not enough arguments for in query'') \<and>
   \<not> (\<exists>t a e. InQuery ''UPDATE t SET a=? WHERE b=? AND c IN (*)''
                  [VInt 1, VInt 2, VSlice [VInt 3]] = Returns (t, a, Some e))"
proof -
  let ?q = "''UPDATE t SET a=? WHERE b=? AND c IN (*)''"
  have one: "strings_Count ?q InQueryReplace = 1" by (simp add: InQueryReplace_def)
  have qm: "1 \<le> strings_Count ?q ''?''" by simp
  have ai: "argIndexOf ?q = 2" by (simp add: argIndexOf_def InQueryReplace_def Let_def)
  from InQuery_arity[OF one qm, of "[VInt 1, VInt 2]"]
  have 1: "InQuery ?q [VInt 1, VInt 2] =
     Returns ('''', [], Some ''sqlp: not enough arguments for in query'')"
    by (auto simp: ai)
  from InQuery_arity[OF one qm, of "[VInt 1, VInt 2, VSlice [VInt 3]]"]
  have 2: "\<not> (\<exists>t a e. InQuery ?q [VInt 1, VInt 2, VSlice [VInt 3]] = Returns (t, a, Some e))"
    by (auto simp: ai)
  from one qm ai 1 2 show ?thesis by blast
qed

text \<open>
  A case the claims leave open. With further question marks in the template, an argument
  at the marker's position that has no length (a number, nil) makes \<open>ToAny\<close> panic.
\<close>

lemma InQuery_scalar_panics:
  assumes "strings_Count q InQueryReplace = 1" and "1 \<le> strings_Count q ''?''"
      and "argIndexOf q < length args"
      and "args ! argIndexOf q = VInt n \<or> args ! argIndexOf q = VNil"
  shows "InQuery q args = Panic"
  using assms by (auto simp: InQuery_def Let_def)

section \<open>The snake-case name mapper\<close>

lemma upt_Suc_shift: "[0..<Suc n] = 0 # map Suc [0..<n]"
  by (simp add: upt_conv_Cons map_Suc_upt del: upt_Suc)

lemma ToSnakeCase_loop_eq:
  "ToSnakeCase_loop i p src =
     concat (map (\<lambda>k. (if 0 < i + k \<and> isUpperAZ (src ! k)
                           \<and> \<not> (if k = 0 then p else isUpperAZ (src ! (k - 1)))
                         then [95] else []) @ [src ! k])
                 [0..<length src])"
proof (induction src arbitrary: i p)
  case Nil
  show ?case by simp
next
  case (Cons v rest)
  have "ToSnakeCase_loop (i + 1) (isUpperAZ v) rest =
     concat (map (\<lambda>k. (if 0 < i + 1 + k \<and> isUpperAZ (rest ! k)
                           \<and> \<not> (if k = 0 then isUpperAZ v else isUpperAZ (rest ! (k - 1)))
                         then [95] else []) @ [rest ! k])
                 [0..<length rest])"
    by (rule Cons.IH)
  also have "\<dots> =
     concat (map (\<lambda>k. (if 0 < i + k \<and> isUpperAZ ((v # rest) ! k)
                           \<and> \<not> (if k = 0 then p else isUpperAZ ((v # rest) ! (k - 1)))
                         then [95] else []) @ [(v # rest) ! k])
                 (map Suc [0..<length rest]))"
    unfolding map_map comp_def
    by (rule arg_cong[where f = concat], rule map_cong, simp, case_tac x, simp_all)
  finally have t: "ToSnakeCase_loop (i + 1) (isUpperAZ v) rest =
     concat (map (\<lambda>k. (if 0 < i + k \<and> isUpperAZ ((v # rest) ! k)
                           \<and> \<not> (if k = 0 then p else isUpperAZ ((v # rest) ! (k - 1)))
                         then [95] else []) @ [(v # rest) ! k])
                 (map Suc [0..<length rest]))" .
  show ?case
    apply (simp only: length_Cons upt_Suc_shift list.map concat.simps)
    apply (subst t[symmetric])
    apply (simp add: Let_def isUpperAZ_def)
    done
qed

text \<open>
  C9, as the code has it. \<open>ToSnakeCase\<close> puts an underscore before each of the letters
  A to Z that is not the first character and does not follow one of the letters A to Z,
  and then puts the whole in lower case with \<^verbatim>\<open>strings.ToLower\<close>, which lower-cases
  the capitals beyond ASCII too. The three examples of the specification and of the
  package's test come out as stated.
\<close>

theorem ToSnakeCase_words:
  "ToSnakeCase tbl src = snake_case_words isUpperAZ (unicode_ToLower tbl) src \<and>
   ToSnakeCase tbl (runes ''FirstName'') = runes ''first_name'' \<and>
   ToSnakeCase tbl (runes ''firstName'') = runes ''first_name'' \<and>
   ToSnakeCase tbl (runes ''First'') = runes ''first''"
proof -
  have "\<And>k. (0 < k \<and> isUpperAZ (src ! k)
                \<and> \<not> (if k = 0 then False else isUpperAZ (src ! (k - 1))))
           = (0 < k \<and> isUpperAZ (src ! k) \<and> \<not> isUpperAZ (src ! (k - 1)))"
    by auto
  then have g: "ToSnakeCase tbl src = snake_case_words isUpperAZ (unicode_ToLower tbl) src"
    by (simp add: ToSnakeCase_def snake_case_words_def ToSnakeCase_loop_eq)
  have 1: "ToSnakeCase tbl (runes ''FirstName'') = runes ''first_name''"
    by (simp add: ToSnakeCase_def runes_def unicode_ToLower_def Let_def)
  have 2: "ToSnakeCase tbl (runes ''firstName'') = runes ''first_name''"
    by (simp add: ToSnakeCase_def runes_def unicode_ToLower_def Let_def)
  have 3: "ToSnakeCase tbl (runes ''First'') = runes ''first''"
    by (simp add: ToSnakeCase_def runes_def unicode_ToLower_def Let_def)
  from g 1 2 3 show ?thesis by blast
qed

text \<open>
  The specification speaks of upper-case characters, with no restriction to ASCII. On
  a small a (rune 97) followed by a capital E with acute accent (U+00C9, rune 201), the
  code writes no underscore and lower-cases the capital to rune 233. With upper
  and lower case both read as Unicode has them, the words of the specification give an
  underscore (95) between the two; with both read as ASCII, they leave the capital as it
  is. The code does neither.
\<close>

theorem ToSnakeCase_counterexample:
  "ToSnakeCase latin1_table [97, 201] = [97, 233] \<and>
   snake_case_words latin1_IsUpper (unicode_ToLower latin1_table) [97, 201] = [97, 95, 233] \<and>
   snake_case_words isUpperAZ ascii_ToLower [97, 201] = [97, 201]"
  by (simp add: ToSnakeCase_def snake_case_words_def unicode_ToLower_def latin1_table_def
        latin1_IsUpper_def isUpperAZ_def ascii_ToLower_def Let_def upt_conv_Cons)

section \<open>The metadata resolver and its cache\<close>

declare getFieldInfo.simps [simp del]

lemma getFieldInfo_returns:
  "t_Kind T = Struct \<longrightarrow> (\<exists>r. getFieldInfo nm T ip ai c = Returns r)"
  "\<exists>r. getFieldInfo_loop nm ip ai i fs finfo c = Returns r"
proof (induction nm T ip ai c and nm ip ai i fs finfo c rule: getFieldInfo_getFieldInfo_loop.induct)
  case (1 nm T ip ai c)
  show ?case
  proof (cases "c (cacheKey T ip ai)")
    case None
    show ?thesis
    proof
      assume s: "t_Kind T = Struct"
      with 1 None obtain r where
        "getFieldInfo_loop nm ip ai 0 (t_Fields T) Map.empty c = Returns r" by auto
      with None s show "\<exists>r. getFieldInfo nm T ip ai c = Returns r"
        by (cases r) (simp add: getFieldInfo.simps)
    qed
  next
    case (Some f)
    then show ?thesis by (simp add: getFieldInfo.simps)
  qed
next
  case (2 nm ip ai i finfo c)
  show ?case by simp
next
  case (3 nm ip ai i f fs finfo c)
  show ?case
  proof (cases "skipField ip ai f")
    case True
    with "3.IH"(1) show ?thesis by simp
  next
    case False
    note ns = this
    show ?thesis
    proof (cases "embedsStruct f")
      case True
      with "3.IH"(2)[OF ns True] obtain inner c' where
        g: "getFieldInfo nm (f_Type f) ip ai c = Returns (inner, c')"
        by (auto simp: embedsStruct_def)
      from "3.IH"(3)[OF ns True g refl] ns True g show ?thesis by simp
    next
      case False
      with "3.IH"(4)[OF ns False] ns show ?thesis by (simp add: fun_upd_def)
    qed
  qed
qed

lemmas resolver_eval =
  getFieldInfo.simps cacheKey_def pkCacheKey_def TagName_def fmt_bool_def skipField_def
  embedsStruct_def columnName_def Tag_Get_def Tag_Lookup_def AutoGenTagName_def
  IgnoreTagName_def Let_def

subsection \<open>What the cache keeps\<close>

text \<open>
  \<open>getFieldInfo\<close> writes the entry of a key it did not find and leaves every entry it
  found: nothing is removed and nothing that was there is replaced.
\<close>

lemma getFieldInfo_keeps:
  "getFieldInfo nm T ip ai c = Returns (f, c') \<longrightarrow> (\<forall>k v. c k = Some v \<longrightarrow> c' k = Some v)"
  "getFieldInfo_loop nm ip ai i fs finfo c = Returns (f, c') \<longrightarrow> (\<forall>k v. c k = Some v \<longrightarrow> c' k = Some v)"
proof (induction nm T ip ai c and nm ip ai i fs finfo c arbitrary: f c' and f c'
       rule: getFieldInfo_getFieldInfo_loop.induct)
  case (1 nm T ip ai c)
  show ?case
  proof (cases "c (cacheKey T ip ai)")
    case None
    show ?thesis
    proof (intro impI allI)
      fix k v
      assume r: "getFieldInfo nm T ip ai c = Returns (f, c')" and kv: "c k = Some v"
      from r None have s: "t_Kind T = Struct"
        by (auto simp: getFieldInfo.simps split: if_splits)
      from r None s obtain c1 where
        l: "getFieldInfo_loop nm ip ai 0 (t_Fields T) Map.empty c = Returns (f, c1)" and
        e: "c' = c1(cacheKey T ip ai \<mapsto> f)"
        by (auto simp: getFieldInfo.simps split: outcome.splits)
      from "1.IH"[OF refl None] s l kv have "c1 k = Some v" by auto
      moreover from kv None have "k \<noteq> cacheKey T ip ai" by auto
      ultimately show "c' k = Some v" using e by simp
    qed
  next
    case (Some g)
    then show ?thesis by (simp add: getFieldInfo.simps)
  qed
next
  case (2 nm ip ai i finfo c)
  show ?case by simp
next
  case (3 nm ip ai i f0 fs finfo c)
  show ?case
  proof (cases "skipField ip ai f0")
    case True
    with "3.IH"(1) show ?thesis by simp
  next
    case False
    note ns = this
    show ?thesis
    proof (cases "embedsStruct f0")
      case True
      show ?thesis
      proof (intro impI allI)
        fix k v
        assume r: "getFieldInfo_loop nm ip ai i (f0 # fs) finfo c = Returns (f, c')"
           and kv: "c k = Some v"
        from r ns True obtain inner c1 where
          g: "getFieldInfo nm (f_Type f0) ip ai c = Returns (inner, c1)" and
          l: "getFieldInfo_loop nm ip ai (i + 1) fs
                (finfo ++ (\<lambda>k. map_option ((#) i) (inner k))) c1 = Returns (f, c')"
          by (auto split: outcome.splits)
        from "3.IH"(2)[OF ns True] g kv have "c1 k = Some v" by blast
        with "3.IH"(3)[OF ns True g refl] l show "c' k = Some v" by blast
      qed
    next
      case False
      with "3.IH"(4)[OF ns False] ns show ?thesis by (simp add: fun_upd_def)
    qed
  qed
qed

lemma getFieldInfo_hit:
  "c (cacheKey T ip ai) = Some f \<Longrightarrow> getFieldInfo nm T ip ai c = Returns (f, c)"
  by (simp add: getFieldInfo.simps)

lemma getFieldInfo_stored:
  assumes "getFieldInfo nm T ip ai c = Returns (f, c')"
  shows "c' (cacheKey T ip ai) = Some f"
proof (cases "c (cacheKey T ip ai)")
  case None
  with assms show ?thesis
    by (auto simp: getFieldInfo.simps split: if_splits outcome.splits)
next
  case (Some g)
  with assms show ?thesis by (simp add: getFieldInfo.simps)
qed

text \<open>
  The key is built from the printed name of the type, not from the type. Two struct
  types that print the same (two types declared under one name in different functions of
  a package, say) share their entries: after the metadata of the first is cached, a
  request for the second returns the metadata of the first.
\<close>

lemma getFieldInfo_same_name:
  "getFieldInfo (\<lambda>s. s)
     (RType ''main.row'' Struct False
        [SField ''X'' '''' [(''sql'', ''x'')] False (RType ''int'' OtherKind False [])])
     True False
     [''main.rowsqltruefalse'' \<mapsto> [''id'' \<mapsto> [0], ''name'' \<mapsto> [1]]]
   = Returns ([''id'' \<mapsto> [0], ''name'' \<mapsto> [1]],
              [''main.rowsqltruefalse'' \<mapsto> [''id'' \<mapsto> [0], ''name'' \<mapsto> [1]]])"
  by (simp add: resolver_eval)

subsection \<open>An order for the range over a map\<close>

lemma sorted_range_singleton: "dom m = {k} \<Longrightarrow> sorted_range m = [(k, the (m k))]"
  by (simp add: sorted_range_def)

lemma sorted_range_visits:
  assumes "finite (dom m)"
  shows "visits sorted_range m"
proof -
  have d: "distinct (map fst (sorted_range m))"
    by (simp add: sorted_range_def comp_def)
  have s: "set (sorted_list_of_set (dom m)) = dom m" using assms by simp
  have "map_of (sorted_range m) k = m k" for k
  proof (cases "m k")
    case None
    then have "k \<notin> dom m" by auto
    with s have "k \<notin> fst ` set (sorted_range m)"
      by (auto simp: sorted_range_def)
    then have "map_of (sorted_range m) k = None" by (simp add: map_of_eq_None_iff)
    with None show ?thesis by simp
  next
    case (Some v)
    then have "k \<in> dom m" by auto
    with s Some have "(k, v) \<in> set (sorted_range m)"
      by (force simp: sorted_range_def)
    with d have "map_of (sorted_range m) k = Some v" by simp
    with Some show ?thesis by simp
  qed
  then have "map_of (sorted_range m) = m" by (rule ext)
  with d show ?thesis by (simp add: visits_def)
qed

subsection \<open>The metadata has finitely many names\<close>

text \<open>
  A Go map is finite. When the maps in the cache are, so is the map \<open>getFieldInfo\<close>
  returns, and so are the maps of the cache it leaves; then a \<^verbatim>\<open>range\<close> over the
  result has an order to take, for instance by increasing key.
\<close>

lemma dom_prefixed: "dom (\<lambda>k. map_option ((#) i) (inner k)) = dom inner"
  by (auto simp: dom_def)

lemma getFieldInfo_finite:
  "cache_finite c \<longrightarrow> getFieldInfo nm T ip ai c = Returns (f, c')
     \<longrightarrow> finite (dom f) \<and> cache_finite c'"
  "finite (dom finfo) \<longrightarrow> cache_finite c \<longrightarrow>
     getFieldInfo_loop nm ip ai i fs finfo c = Returns (f, c')
     \<longrightarrow> finite (dom f) \<and> cache_finite c'"
proof (induction nm T ip ai c and nm ip ai i fs finfo c arbitrary: f c' and f c'
       rule: getFieldInfo_getFieldInfo_loop.induct)
  case (1 nm T ip ai c)
  show ?case
  proof (intro impI)
    assume c: "cache_finite c" and r: "getFieldInfo nm T ip ai c = Returns (f, c')"
    show "finite (dom f) \<and> cache_finite c'"
    proof (cases "c (cacheKey T ip ai)")
      case (Some g)
      with r have "f = g" "c' = c" by (simp_all add: getFieldInfo.simps)
      with Some c show ?thesis by (auto simp: cache_finite_def)
    next
      case None
      from r None have s: "t_Kind T = Struct"
        by (auto simp: getFieldInfo.simps split: if_splits)
      from r None s obtain c1 where
        l: "getFieldInfo_loop nm ip ai 0 (t_Fields T) Map.empty c = Returns (f, c1)" and
        e: "c' = c1(cacheKey T ip ai \<mapsto> f)"
        by (auto simp: getFieldInfo.simps split: outcome.splits)
      from "1.IH"[OF refl None, of f c1] s c l
      have p: "finite (dom f)" and c1: "cache_finite c1" by auto
      with e show ?thesis by (auto simp: cache_finite_def)
    qed
  qed
next
  case (2 nm ip ai i finfo c)
  show ?case by auto
next
  case (3 nm ip ai i f0 fs finfo c)
  show ?case
  proof (intro impI)
    assume o: "finite (dom finfo)" and c: "cache_finite c"
       and r: "getFieldInfo_loop nm ip ai i (f0 # fs) finfo c = Returns (f, c')"
    show "finite (dom f) \<and> cache_finite c'"
    proof (cases "skipField ip ai f0")
      case True
      with r have "getFieldInfo_loop nm ip ai (i + 1) fs finfo c = Returns (f, c')" by simp
      with "3.IH"(1)[OF True, of f c'] o c show ?thesis by blast
    next
      case False
      note ns = this
      show ?thesis
      proof (cases "embedsStruct f0")
        case True
        from r ns True obtain inner c1 where
          g: "getFieldInfo nm (f_Type f0) ip ai c = Returns (inner, c1)" and
          l: "getFieldInfo_loop nm ip ai (i + 1) fs
                (finfo ++ (\<lambda>k. map_option ((#) i) (inner k))) c1 = Returns (f, c')"
          by (auto split: outcome.splits)
        from "3.IH"(2)[OF ns True, of inner c1] c g
        have n: "finite (dom inner)" and c1: "cache_finite c1" by auto
        from o n have "finite (dom (finfo ++ (\<lambda>k. map_option ((#) i) (inner k))))"
          by (simp add: dom_prefixed)
        with "3.IH"(3)[OF ns True g refl, of f c'] c1 l show ?thesis by blast
      next
        case False
        with r ns have l: "getFieldInfo_loop nm ip ai (i + 1) fs
                             (finfo(columnName nm f0 \<mapsto> [i])) c = Returns (f, c')"
          by simp
        from o have "finite (dom (finfo(columnName nm f0 \<mapsto> [i])))" by simp
        with "3.IH"(4)[OF ns False, of f c'] c l show ?thesis by blast
      qed
    qed
  qed
qed

lemma getFieldInfo_has_order:
  assumes "cache_finite c" and "getFieldInfo nm T ip ai c = Returns (finfo, c')"
  shows "visits sorted_range finfo"
  using getFieldInfo_finite(1)[of c nm T ip ai finfo c'] assms
  by (simp add: sorted_range_visits)

subsection \<open>The paths of the metadata are field paths\<close>

text \<open>
  The cache is keyed by the printed name of the type. For a set \<open>U\<close> of types that have
  different names and that holds the embedded struct types of its members, a cache whose
  entries for the types of \<open>U\<close> hold field paths of that type stays so, and the metadata
  \<open>getFieldInfo\<close> returns for a type of \<open>U\<close> holds field paths of the type that
  pass through exported fields only (the resolver skips the others): the row scanner's
  \<^verbatim>\<open>elem.FieldByIndex(idx).Addr().Interface()\<close> does not panic on them. The empty cache
  is such a cache.
\<close>

lemma cacheKey_String:
  assumes "cacheKey T ip ai = cacheKey T2 ip2 ai2"
  shows "t_String T = t_String T2"
proof -
  from assms have "rev (cacheKey T ip ai) = rev (cacheKey T2 ip2 ai2)" by simp
  then show ?thesis
    by (cases ip; cases ai; cases ip2; cases ai2)
       (simp_all add: cacheKey_def TagName_def fmt_bool_def)
qed

lemma cache_ok_empty: "cache_ok U Map.empty"
  by (simp add: cache_ok_def)

lemma cache_ok_store:
  assumes u: "closed_types U" and t: "T \<in> U" and c: "cache_ok U c" and p: "paths_ok T f"
  shows "cache_ok U (c(cacheKey T ip ai \<mapsto> f))"
  unfolding cache_ok_def
proof (intro ballI allI impI)
  fix T2 ip2 ai2 f2
  assume t2: "T2 \<in> U"
     and l: "(c(cacheKey T ip ai \<mapsto> f)) (cacheKey T2 ip2 ai2) = Some f2"
  show "paths_ok T2 f2"
  proof (cases "cacheKey T2 ip2 ai2 = cacheKey T ip ai")
    case True
    from cacheKey_String[OF True] u t t2 have "T2 = T"
      by (auto simp: closed_types_def inj_on_def)
    with True l p show ?thesis by simp
  next
    case False
    with l c t2 show ?thesis by (auto simp: cache_ok_def)
  qed
qed

lemma skipField_exported: "\<not> skipField ip ai f \<Longrightarrow> f_PkgPath f = ''''"
  by (simp add: skipField_def Let_def)

lemma FieldByIndex_loop_eq: "p \<noteq> [] \<Longrightarrow> FieldByIndex v p = FieldByIndex_loop v p"
proof (cases p)
  case Nil
  assume "p \<noteq> []"
  with Nil show ?thesis by simp
next
  case (Cons x r)
  show ?thesis
  proof (cases r)
    case Nil
    with Cons show ?thesis
      by (simp add: FieldByIndex_def split: option.splits)
  next
    case (Cons y r')
    with \<open>p = x # r\<close> show ?thesis
      by (simp add: FieldByIndex_def Value_Field_def)
  qed
qed

lemma fieldPointer_one:
  assumes "t_Kind T = Struct" and "i < length (t_Fields T)"
      and "f_PkgPath (t_Fields T ! i) = ''''"
  shows "fieldPointer T [i] = Returns (FieldAddr [i])"
  using assms by (simp add: fieldPointer_def FieldByIndex_def Value_Field_def Let_def)

lemma fieldPointer_step:
  assumes s: "t_Kind T = Struct" and i: "i < length (t_Fields T)"
      and e: "f_PkgPath (t_Fields T ! i) = ''''"
      and n: "fieldPointer (f_Type (t_Fields T ! i)) p = Returns (FieldAddr p)"
  shows "fieldPointer T (i # p) = Returns (FieldAddr (i # p))"
proof (cases "p = []")
  case True
  with fieldPointer_one[OF s i e] show ?thesis by simp
next
  case False
  have f: "Value_Field (RValue T False False) i
             = Some (RValue (f_Type (t_Fields T ! i)) False False)"
    using s i e by (simp add: Value_Field_def Let_def)
  have "FieldByIndex (RValue T False False) (i # p)
          = FieldByIndex_loop (RValue T False False) (i # p)"
    by (rule FieldByIndex_loop_eq) simp
  also have "\<dots> = FieldByIndex_loop (RValue (f_Type (t_Fields T ! i)) False False) p"
    by (simp add: f)
  also have "\<dots> = FieldByIndex (RValue (f_Type (t_Fields T ! i)) False False) p"
    by (rule FieldByIndex_loop_eq[symmetric]) (rule False)
  finally have "FieldByIndex (RValue T False False) (i # p)
                  = FieldByIndex (RValue (f_Type (t_Fields T ! i)) False False) p" .
  moreover from n obtain v where
    "FieldByIndex (RValue (f_Type (t_Fields T ! i)) False False) p = Some v"
    "\<not> flagStickyRO v" "\<not> flagEmbedRO v"
    by (auto simp: fieldPointer_def split: option.splits if_splits)
  ultimately show ?thesis by (simp add: fieldPointer_def)
qed

lemma paths_ok_plain:
  assumes "paths_ok T finfo" and "t_Kind T = Struct" and "i < length (t_Fields T)"
      and "f_PkgPath (t_Fields T ! i) = ''''"
  shows "paths_ok T (finfo(k \<mapsto> [i]))"
  using assms fieldPointer_one[of T i]
  by (auto simp: paths_ok_def ran_def split: if_splits)

lemma paths_ok_embedded:
  assumes o: "paths_ok T finfo" and s: "t_Kind T = Struct" and i: "i < length (t_Fields T)"
      and e: "f_PkgPath (t_Fields T ! i) = ''''"
      and n: "paths_ok (f_Type (t_Fields T ! i)) inner"
  shows "paths_ok T (finfo ++ (\<lambda>k. map_option ((#) i) (inner k)))"
  unfolding paths_ok_def
proof
  fix p
  assume "p \<in> ran (finfo ++ (\<lambda>k. map_option ((#) i) (inner k)))"
  then have "\<exists>k. (finfo ++ (\<lambda>k. map_option ((#) i) (inner k))) k = Some p"
    by (simp only: ran_def mem_Collect_eq)
  then obtain k where k: "(finfo ++ (\<lambda>k. map_option ((#) i) (inner k))) k = Some p" ..
  show "fieldPointer T p = Returns (FieldAddr p)"
  proof (cases "inner k")
    case None
    with k have "finfo k = Some p" by (simp add: map_add_def)
    with o show ?thesis by (auto simp: paths_ok_def ran_def)
  next
    case (Some q)
    with k have p: "p = i # q" by (simp add: map_add_def)
    from Some n have "fieldPointer (f_Type (t_Fields T ! i)) q = Returns (FieldAddr q)"
      by (auto simp: paths_ok_def ran_def)
    from fieldPointer_step[OF s i e this] p show ?thesis by simp
  qed
qed

lemma getFieldInfo_paths:
  "closed_types U \<longrightarrow> T \<in> U \<longrightarrow> cache_ok U c \<longrightarrow>
     getFieldInfo nm T ip ai c = Returns (f, c') \<longrightarrow> paths_ok T f \<and> cache_ok U c'"
  "closed_types U \<longrightarrow> T0 \<in> U \<longrightarrow> t_Kind T0 = Struct \<longrightarrow> fs = drop i (t_Fields T0) \<longrightarrow>
     paths_ok T0 finfo \<longrightarrow> cache_ok U c \<longrightarrow>
     getFieldInfo_loop nm ip ai i fs finfo c = Returns (f, c') \<longrightarrow> paths_ok T0 f \<and> cache_ok U c'"
proof (induction nm T ip ai c and nm ip ai i fs finfo c arbitrary: f c' and f c' T0
       rule: getFieldInfo_getFieldInfo_loop.induct)
  case (1 nm T ip ai c)
  show ?case
  proof (intro impI)
    assume u: "closed_types U" and t: "T \<in> U" and c: "cache_ok U c"
       and r: "getFieldInfo nm T ip ai c = Returns (f, c')"
    show "paths_ok T f \<and> cache_ok U c'"
    proof (cases "c (cacheKey T ip ai)")
      case (Some g)
      with r have "f = g" "c' = c" by (simp_all add: getFieldInfo.simps)
      with Some c t show ?thesis by (auto simp: cache_ok_def)
    next
      case None
      from r None have s: "t_Kind T = Struct"
        by (auto simp: getFieldInfo.simps split: if_splits)
      from r None s obtain c1 where
        l: "getFieldInfo_loop nm ip ai 0 (t_Fields T) Map.empty c = Returns (f, c1)" and
        e: "c' = c1(cacheKey T ip ai \<mapsto> f)"
        by (auto simp: getFieldInfo.simps split: outcome.splits)
      have "paths_ok T Map.empty" by (simp add: paths_ok_def)
      with "1.IH"[OF refl None, of T f c1] s u t c l
      have p: "paths_ok T f" and c1: "cache_ok U c1" by auto
      from cache_ok_store[OF u t c1 p] e p show ?thesis by simp
    qed
  qed
next
  case (2 nm ip ai i finfo c)
  show ?case by auto
next
  case (3 nm ip ai i f0 fs finfo c)
  show ?case
  proof (intro impI)
    assume u: "closed_types U" and t: "T0 \<in> U" and s: "t_Kind T0 = Struct"
       and d: "f0 # fs = drop i (t_Fields T0)" and o: "paths_ok T0 finfo"
       and c: "cache_ok U c"
       and r: "getFieldInfo_loop nm ip ai i (f0 # fs) finfo c = Returns (f, c')"
    from d have i: "i < length (t_Fields T0)"
      by (metis drop_all list.distinct(1) not_le)
    from d i have f0: "t_Fields T0 ! i = f0"
      by (metis Cons_nth_drop_Suc list.inject)
    from d i have fs: "fs = drop (i + 1) (t_Fields T0)"
      by (metis Cons_nth_drop_Suc list.inject Suc_eq_plus1)
    show "paths_ok T0 f \<and> cache_ok U c'"
    proof (cases "skipField ip ai f0")
      case True
      with r have "getFieldInfo_loop nm ip ai (i + 1) fs finfo c = Returns (f, c')" by simp
      with "3.IH"(1)[OF True, of T0 f c'] u t s fs o c show ?thesis by blast
    next
      case False
      note ns = this
      show ?thesis
      proof (cases "embedsStruct f0")
        case True
        from r ns True obtain inner c1 where
          g: "getFieldInfo nm (f_Type f0) ip ai c = Returns (inner, c1)" and
          l: "getFieldInfo_loop nm ip ai (i + 1) fs
                (finfo ++ (\<lambda>k. map_option ((#) i) (inner k))) c1 = Returns (f, c')"
          by (auto split: outcome.splits)
        from f0 i have "f0 \<in> set (t_Fields T0)" by (metis nth_mem)
        with u t True have tu: "f_Type f0 \<in> U" by (auto simp: closed_types_def)
        from "3.IH"(2)[OF ns True, of inner c1] u tu c g
        have n: "paths_ok (f_Type f0) inner" and c1: "cache_ok U c1" by auto
        from skipField_exported[OF ns] f0 have e: "f_PkgPath (t_Fields T0 ! i) = ''''" by simp
        from paths_ok_embedded[OF o s i e] n f0
        have "paths_ok T0 (finfo ++ (\<lambda>k. map_option ((#) i) (inner k)))" by simp
        with "3.IH"(3)[OF ns True g refl, of T0 f c'] u t s fs c1 l show ?thesis by blast
      next
        case False
        with r ns have l: "getFieldInfo_loop nm ip ai (i + 1) fs
                             (finfo(columnName nm f0 \<mapsto> [i])) c = Returns (f, c')"
          by simp
        from skipField_exported[OF ns] f0 have e: "f_PkgPath (t_Fields T0 ! i) = ''''" by simp
        from paths_ok_plain[OF o s i e]
        have "paths_ok T0 (finfo(columnName nm f0 \<mapsto> [i]))" .
        with "3.IH"(4)[OF ns False, of T0 f c'] u t s fs c l show ?thesis by blast
      qed
    qed
  qed
qed

lemma getFieldInfo_field_paths:
  assumes "closed_types U" and "T \<in> U" and "cache_ok U c"
      and "getFieldInfo nm T ip ai c = Returns (fInfo, c')"
  shows "\<forall>p\<in>ran fInfo. fieldPointer T p = Returns (FieldAddr p)" and "cache_ok U c'"
  using getFieldInfo_paths(1)[of U T c nm ip ai fInfo c'] assms
  by (simp_all add: paths_ok_def)

section \<open>The column projector\<close>

lemma visits_sort:
  assumes "visits iter m"
  shows "sort (map fst (iter m)) = sorted_list_of_set (dom m)"
proof -
  from assms have d: "distinct (map fst (iter m))" and m: "map_of (iter m) = m"
    by (simp_all add: visits_def)
  have e: "dom m = set (map fst (iter m))"
    by (subst m[symmetric]) (simp add: dom_map_of_conv_image_fst)
  have "sorted_list_of_set (set (map fst (iter m))) = sort (remdups (map fst (iter m)))"
    by (rule sorted_list_of_set_sort_remdups)
  with d e show ?thesis by (simp only: distinct_remdups_id)
qed

lemma columns_of_metadata:
  assumes g: "getFieldInfo nm T True False c = Returns (finfo, c')" and v: "visits iter finfo"
  shows "columns iter nm T c = Returns (strings_Join (sorted_list_of_set (dom finfo)) '', '', c')"
  using g visits_sort[OF v] by (simp add: columns_def getColumns_def)

lemma columns_returns:
  assumes "t_Kind T = Struct"
  shows "\<exists>cols c'. columns iter nm T c = Returns (cols, c')"
proof -
  from getFieldInfo_returns(1)[of T nm True False c] assms obtain finfo c' where
    "getFieldInfo nm T True False c = Returns (finfo, c')" by auto
  then show ?thesis by (simp add: columns_def getColumns_def)
qed

text \<open>
  C4. For a struct type, the metadata resolves (from the cache or by reflection), and
  for every order in which the \<^verbatim>\<open>range\<close> of \<open>getColumns\<close> may visit the map,
  \<open>columns\<close> returns the names of that metadata in increasing order, joined by a comma
  and a space. A second call, on the cache the first one left, returns the very same
  string, whatever the order of its \<^verbatim>\<open>range\<close> and whatever the name mapper is by
  then. The string is a function of the set of names alone.
\<close>

theorem columns_sorted_join:
  assumes struct: "t_Kind T = Struct"
  shows "\<exists>finfo c'.
           getFieldInfo nm T True False c = Returns (finfo, c') \<and>
           (visits iter finfo \<longrightarrow>
              columns iter nm T c
                = Returns (strings_Join (sorted_list_of_set (dom finfo)) '', '', c')) \<and>
           (visits iter' finfo \<longrightarrow>
              columns iter' nm' T c'
                = Returns (strings_Join (sorted_list_of_set (dom finfo)) '', '', c'))"
proof -
  from getFieldInfo_returns(1)[of T nm True False c] struct obtain finfo c' where
    g: "getFieldInfo nm T True False c = Returns (finfo, c')" by auto
  have "c' (cacheKey T True False) = Some finfo"
    by (rule getFieldInfo_stored[OF g])
  then have g': "getFieldInfo nm' T True False c' = Returns (finfo, c')"
    by (simp add: getFieldInfo.simps)
  from g columns_of_metadata[OF g] columns_of_metadata[OF g'] show ?thesis by blast
qed

theorem columns_sorted_join_witness:
  "t_Kind (RType ''main.User'' Struct False
      [SField ''Name'' '''' [(''sql'', ''name'')] False (RType ''string'' OtherKind False []),
       SField ''ID'' '''' [(''sql'', ''id''), (''sql-auto'', '''')] False
         (RType ''int'' OtherKind False []),
       SField ''secret'' ''main'' [] False (RType ''string'' OtherKind False [])]) = Struct \<and>
   visits (\<lambda>m. [(''name'', [0]), (''id'', [1])]) [''name'' \<mapsto> [0], ''id'' \<mapsto> [1]] \<and>
   visits (\<lambda>m. [(''id'', [1]), (''name'', [0])]) [''name'' \<mapsto> [0], ''id'' \<mapsto> [1]] \<and>
   columns (\<lambda>m. [(''name'', [0]), (''id'', [1])]) (\<lambda>s. s)
     (RType ''main.User'' Struct False
      [SField ''Name'' '''' [(''sql'', ''name'')] False (RType ''string'' OtherKind False []),
       SField ''ID'' '''' [(''sql'', ''id''), (''sql-auto'', '''')] False
         (RType ''int'' OtherKind False []),
       SField ''secret'' ''main'' [] False (RType ''string'' OtherKind False [])])
     Map.empty
   = Returns (''id, name'',
              [''main.Usersqltruefalse'' \<mapsto> [''name'' \<mapsto> [0], ''id'' \<mapsto> [1]]]) \<and>
   columns (\<lambda>m. [(''id'', [1]), (''name'', [0])]) (\<lambda>s. ''x'')
     (RType ''main.User'' Struct False
      [SField ''Name'' '''' [(''sql'', ''name'')] False (RType ''string'' OtherKind False []),
       SField ''ID'' '''' [(''sql'', ''id''), (''sql-auto'', '''')] False
         (RType ''int'' OtherKind False []),
       SField ''secret'' ''main'' [] False (RType ''string'' OtherKind False [])])
     [''main.Usersqltruefalse'' \<mapsto> [''name'' \<mapsto> [0], ''id'' \<mapsto> [1]]]
   = Returns (''id, name'',
              [''main.Usersqltruefalse'' \<mapsto> [''name'' \<mapsto> [0], ''id'' \<mapsto> [1]]])"
proof -
  let ?T = "RType ''main.User'' Struct False
      [SField ''Name'' '''' [(''sql'', ''name'')] False (RType ''string'' OtherKind False []),
       SField ''ID'' '''' [(''sql'', ''id''), (''sql-auto'', '''')] False
         (RType ''int'' OtherKind False []),
       SField ''secret'' ''main'' [] False (RType ''string'' OtherKind False [])]"
  let ?f = "[''name'' \<mapsto> [0::nat], ''id'' \<mapsto> [1]]"
  let ?c = "[''main.Usersqltruefalse'' \<mapsto> ?f]"
  let ?i1 = "\<lambda>m::fieldInfo. [(''name'', [0::nat]), (''id'', [1])]"
  let ?i2 = "\<lambda>m::fieldInfo. [(''id'', [1::nat]), (''name'', [0])]"
  have k: "t_Kind ?T = Struct" by simp
  have v1: "visits ?i1 ?f" by (auto simp: visits_def)
  have v2: "visits ?i2 ?f" by (auto simp: visits_def)
  have ev: "getFieldInfo (\<lambda>s. s) ?T True False Map.empty = Returns (?f, ?c)"
    by (simp add: resolver_eval)
  have so: "sorted_list_of_set (dom ?f) = [''id'', ''name'']"
    using sorted_list_of_set_sort_remdups[of "[''name'', ''id'']"] by simp
  from columns_sorted_join[OF k, of "\<lambda>s. s" Map.empty ?i1 ?i2 "\<lambda>s. ''x''"] ev v1 v2
  have 1: "columns ?i1 (\<lambda>s. s) ?T Map.empty = Returns (''id, name'', ?c)"
   and 2: "columns ?i2 (\<lambda>s. ''x'') ?T ?c = Returns (''id, name'', ?c)"
    by (auto simp only: so outcome.inject prod.inject strings_Join.simps append_Cons append_Nil)
  from k v1 v2 1 2 show ?thesis by blast
qed

section \<open>Primary-key metadata\<close>

text \<open>
  \<open>getPkFieldInfo\<close> reads the cache and never writes it: whatever it returns, the cache
  is the one it was given.
\<close>

lemma getPkFieldInfo_cache_unchanged:
  "getPkFieldInfo iter T c = Returns (r, c') \<Longrightarrow> c' = c"
  by (auto simp: getPkFieldInfo_def Let_def split: option.splits if_splits)

text \<open>
  C8, on the code. For general column metadata the claim holds: \<open>getFieldInfo_stored\<close>,
  \<open>getFieldInfo_hit\<close> and \<open>getFieldInfo_keeps\<close> above. For primary-key metadata it
  does not: for the type
  \<^verbatim>\<open>type User struct { ID int `sql-auto:""`; Name string }\<close>
  and the empty cache, \<open>getPkFieldInfo\<close> resolves the key by reflection and returns the
  cache still empty, so the next request resolves it by reflection again; and the
  general metadata that \<open>getFieldInfo\<close> does cache is not what \<open>getPkFieldInfo\<close> looks
  for (its key is another one).
\<close>

theorem getPkFieldInfo_does_not_cache:
  "getPkFieldInfo sorted_range
     (RType ''main.User'' Struct False
        [SField ''ID'' '''' [(''sql-auto'', '''')] False (RType ''int'' OtherKind False []),
         SField ''Name'' '''' [] False (RType ''string'' OtherKind False [])])
     Map.empty
   = Returns ((''ID'', [0], None), Map.empty) \<and>
   pkCacheKey (RType ''main.User'' Struct False
        [SField ''ID'' '''' [(''sql-auto'', '''')] False (RType ''int'' OtherKind False []),
         SField ''Name'' '''' [] False (RType ''string'' OtherKind False [])])
   = ''main.Usersql-auto'' \<and>
   (Map.empty :: cache) ''main.Usersql-auto'' = None"
proof -
  let ?T = "RType ''main.User'' Struct False
        [SField ''ID'' '''' [(''sql-auto'', '''')] False (RType ''int'' OtherKind False []),
         SField ''Name'' '''' [] False (RType ''string'' OtherKind False [])]"
  let ?fs = "[SField ''ID'' '''' [(''sql-auto'', '''')] False (RType ''int'' OtherKind False []),
         SField ''Name'' '''' [] False (RType ''string'' OtherKind False [])]"
  have d: "dom (getPkFieldInfo_loop 0 ?fs Map.empty) = {''ID''}"
    by (simp add: resolver_eval)
  have v: "getPkFieldInfo_loop 0 ?fs Map.empty ''ID'' = Some [0]"
    by (simp add: resolver_eval)
  have "getPkFieldInfo sorted_range ?T Map.empty = Returns ((''ID'', [0], None), Map.empty)"
    by (simp add: getPkFieldInfo_def pkCacheKey_def Let_def first_entry_def
                  sorted_range_singleton[OF d] d v del: getPkFieldInfo_loop.simps)
  then show ?thesis by (simp add: pkCacheKey_def AutoGenTagName_def)
qed

lemma getPkFieldInfo_loop_step:
  "getPkFieldInfo_loop i (f # fs) finfo =
     getPkFieldInfo_loop (Suc i) fs (if pkMarked f then finfo(f_Name f \<mapsto> [i]) else finfo)"
  by (simp add: pkMarked_def Let_def)

lemma getPkFieldInfo_loop_dom:
  "dom (getPkFieldInfo_loop i fs finfo) = dom finfo \<union> f_Name ` {f \<in> set fs. pkMarked f}"
proof (induction fs arbitrary: i finfo)
  case Nil
  show ?case by simp
next
  case (Cons f fs)
  show ?case
    unfolding getPkFieldInfo_loop_step Cons.IH by auto
qed

lemma getPkFieldInfo_loop_none:
  "\<forall>f\<in>set fs. \<not> pkMarked f \<Longrightarrow> getPkFieldInfo_loop i fs finfo = finfo"
proof (induction fs arbitrary: i)
  case Nil
  show ?case by simp
next
  case (Cons f fs)
  then show ?case unfolding getPkFieldInfo_loop_step by simp
qed

lemma getPkFieldInfo_loop_append:
  "getPkFieldInfo_loop i (xs @ ys) finfo =
     getPkFieldInfo_loop (i + length xs) ys (getPkFieldInfo_loop i xs finfo)"
proof (induction xs arbitrary: i finfo)
  case Nil
  show ?case by simp
next
  case (Cons x xs)
  show ?case
    unfolding append_Cons getPkFieldInfo_loop_step Cons.IH by simp
qed

lemma getPkFieldInfo_loop_one:
  assumes "\<forall>x\<in>set pre. \<not> pkMarked x" and "pkMarked f" and "\<forall>x\<in>set post. \<not> pkMarked x"
  shows "getPkFieldInfo_loop 0 (pre @ f # post) Map.empty = [f_Name f \<mapsto> [length pre]]"
  using assms
  by (simp add: getPkFieldInfo_loop_append getPkFieldInfo_loop_none getPkFieldInfo_loop_step
           del: getPkFieldInfo_loop.simps)

lemma visits_singleton:
  assumes "visits iter [k \<mapsto> v]"
  shows "iter [k \<mapsto> v] = [(k, v)]"
proof -
  let ?xs = "iter [k \<mapsto> v]"
  from assms have d: "distinct (map fst ?xs)" and m: "map_of ?xs = [k \<mapsto> v]"
    by (simp_all add: visits_def)
  have "set (map fst ?xs) = dom (map_of ?xs)" by (simp add: dom_map_of_conv_image_fst)
  with m have s: "set (map fst ?xs) = {k}" by simp
  from d have "length (map fst ?xs) = card (set (map fst ?xs))"
    by (simp only: distinct_card)
  with s have "length (map fst ?xs) = Suc 0" by simp
  then obtain y where y: "map fst ?xs = [y]"
    by (cases "map fst ?xs") auto
  with s have "y = k" by simp
  with y obtain w where x: "?xs = [(k, w)]" by (cases ?xs) auto
  from m have "map_of ?xs k = Some v" by simp
  with x have "w = v" by simp
  with x show ?thesis by simp
qed

text \<open>
  What the code does for the types whose marked fields have different names (field
  names differ in every Go struct, except that the blank name \<^verbatim>\<open>_\<close> may be used more
  than once): with no entry under the key in the cache, the request fails exactly when
  the number of marked fields is not 1, and with one marked field it returns the field's
  name (the Go identifier, not the mapped column name) and its index.
\<close>

lemma getPkFieldInfo_fails_iff:
  assumes nc: "c (pkCacheKey T) = None" and st: "t_Kind T = Struct"
      and dn: "distinct (map f_Name (filter pkMarked (t_Fields T)))"
  shows "(\<exists>e. getPkFieldInfo iter T c = Returns (('''', [], Some e), c))
           = (length (filter pkMarked (t_Fields T)) \<noteq> 1)"
proof -
  let ?finfo = "getPkFieldInfo_loop 0 (t_Fields T) Map.empty"
  have "dom ?finfo = set (map f_Name (filter pkMarked (t_Fields T)))"
    by (auto simp: getPkFieldInfo_loop_dom)
  with dn have card: "card (dom ?finfo) = length (filter pkMarked (t_Fields T))"
    by (simp add: distinct_card del: set_map)
  show ?thesis
    using nc st card
    by (auto simp: getPkFieldInfo_def Let_def first_entry_def split: list.splits)
qed

lemma getPkFieldInfo_one:
  assumes nc: "c (pkCacheKey T) = None" and st: "t_Kind T = Struct"
      and fs: "t_Fields T = pre @ f # post"
      and pk: "\<forall>x\<in>set pre. \<not> pkMarked x" "pkMarked f" "\<forall>x\<in>set post. \<not> pkMarked x"
      and vi: "visits iter [f_Name f \<mapsto> [length pre]]"
  shows "getPkFieldInfo iter T c = Returns ((f_Name f, [length pre], None), c)"
proof -
  have l: "getPkFieldInfo_loop 0 (t_Fields T) Map.empty = [f_Name f \<mapsto> [length pre]]"
    unfolding fs by (rule getPkFieldInfo_loop_one[OF pk])
  show ?thesis
    using nc st by (simp add: getPkFieldInfo_def l first_entry_def visits_singleton[OF vi])
qed

text \<open>
  C5, on the code. The request counts the entries of a map keyed by field name, not the
  marked fields. For the type
  \<^verbatim>\<open>struct { _ int `sql-auto:""`; _ int `sql-auto:""`; Total int }\<close>
  two fields carry the marker, both are named \<^verbatim>\<open>_\<close>, the map has one entry, and the
  request succeeds with the second of them instead of failing.
\<close>

theorem getPkFieldInfo_two_blank_fields:
  "length (filter pkMarked (t_Fields
     (RType ''main.Order'' Struct False
        [SField ''_'' ''main'' [(''sql-auto'', '''')] False (RType ''int'' OtherKind False []),
         SField ''_'' ''main'' [(''sql-auto'', '''')] False (RType ''int'' OtherKind False []),
         SField ''Total'' '''' [] False (RType ''int'' OtherKind False [])]))) = 2 \<and>
   getPkFieldInfo sorted_range
     (RType ''main.Order'' Struct False
        [SField ''_'' ''main'' [(''sql-auto'', '''')] False (RType ''int'' OtherKind False []),
         SField ''_'' ''main'' [(''sql-auto'', '''')] False (RType ''int'' OtherKind False []),
         SField ''Total'' '''' [] False (RType ''int'' OtherKind False [])])
     Map.empty
   = Returns ((''_'', [1], None), Map.empty)"
proof -
  let ?fs = "[SField ''_'' ''main'' [(''sql-auto'', '''')] False (RType ''int'' OtherKind False []),
         SField ''_'' ''main'' [(''sql-auto'', '''')] False (RType ''int'' OtherKind False []),
         SField ''Total'' '''' [] False (RType ''int'' OtherKind False [])]"
  have n: "length (filter pkMarked ?fs) = 2"
    by (simp add: pkMarked_def resolver_eval)
  have d: "dom (getPkFieldInfo_loop 0 ?fs Map.empty) = {''_''}"
    by (simp add: resolver_eval)
  have v: "getPkFieldInfo_loop 0 ?fs Map.empty ''_'' = Some [1]"
    by (simp add: resolver_eval)
  have "getPkFieldInfo sorted_range (RType ''main.Order'' Struct False ?fs) Map.empty
          = Returns ((''_'', [1], None), Map.empty)"
    by (simp add: getPkFieldInfo_def pkCacheKey_def Let_def first_entry_def
                  sorted_range_singleton[OF d] d v del: getPkFieldInfo_loop.simps)
  with n show ?thesis by simp
qed

section \<open>The row scanner\<close>

lemma fieldPointer_cases:
  "fieldPointer T p = Panic \<or> fieldPointer T p = Returns (FieldAddr p)"
  by (simp add: fieldPointer_def split: option.splits)

lemma doScan_loop_targets:
  assumes "\<forall>cName\<in>set cols. \<forall>idx. fInfo (nm cName) = Some idx
             \<longrightarrow> fieldPointer T idx = Returns (FieldAddr idx)"
  shows "doScan_loop nm T fInfo cols acc = Returns (acc @ map (scan_target nm fInfo) cols)"
  using assms
proof (induction cols arbitrary: acc)
  case Nil
  show ?case by simp
next
  case (Cons cName cols)
  from Cons.prems have r: "\<forall>cName\<in>set cols. \<forall>idx. fInfo (nm cName) = Some idx
             \<longrightarrow> fieldPointer T idx = Returns (FieldAddr idx)"
    by simp
  show ?case
  proof (cases "fInfo (nm cName)")
    case None
    then show ?thesis by (simp add: Cons.IH[OF r] scan_target_def)
  next
    case (Some idx)
    with Cons.prems have "fieldPointer T idx = Returns (FieldAddr idx)" by simp
    with Some show ?thesis by (simp add: Cons.IH[OF r] scan_target_def)
  qed
qed

lemma doScan_loop_panics:
  assumes "cName \<in> set cols" and "fInfo (nm cName) = Some idx" and "fieldPointer T idx = Panic"
  shows "doScan_loop nm T fInfo cols acc = Panic"
  using assms
proof (induction cols arbitrary: acc)
  case Nil
  then show ?case by simp
next
  case (Cons c cols)
  show ?case
  proof (cases "c = cName")
    case True
    with Cons.prems show ?thesis by simp
  next
    case False
    with Cons.prems have m: "cName \<in> set cols" by simp
    note ih = Cons.IH[OF m Cons.prems(2) Cons.prems(3)]
    show ?thesis
    proof (cases "fInfo (nm c)")
      case None
      then show ?thesis by (simp add: ih)
    next
      case (Some j)
      with fieldPointer_cases[of T j] show ?thesis by (auto simp: ih)
    qed
  qed
qed

lemma scan_target_mem:
  "(FieldAddr p \<in> set (map (scan_target nm fInfo) cols))
     = (\<exists>cName\<in>set cols. fInfo (nm cName) = Some p)"
  by (auto simp: scan_target_def image_iff split: option.splits)

text \<open>
  What the scanner does when the metadata fits the destination. The destination is a
  struct, the cursor reports its columns, and every path that the metadata gives for a
  reported column leads to a field of the destination type whose pointer can be taken.
  Then \<open>doScan\<close> builds one target per reported column, in the cursor's order: the
  address of the field at the metadata's path (a path of several steps for a field of an
  embedded struct) when the mapped column name is in the metadata, and a fresh byte sink
  otherwise. It calls \<^verbatim>\<open>Columns\<close> once and then \<^verbatim>\<open>Scan\<close> once, with that list, and
  returns what \<^verbatim>\<open>Scan\<close> returns: a column with no field is no error of its own. A
  cursor writes only through the targets it is given; so a field that no reported column
  is mapped to holds after the call what it held before.
\<close>

lemma doScan_targets:
  fixes rows :: "(nat list \<Rightarrow> 'v) Rows"
  assumes struct: "t_Kind T = Struct"
      and cols: "Rows_Columns rows = (cols, None)"
      and meta: "getFieldInfo nm T True False c = Returns (fInfo, c')"
      and paths: "\<forall>cName\<in>set cols. \<forall>idx. fInfo (nm cName) = Some idx
                    \<longrightarrow> fieldPointer T idx = Returns (FieldAddr idx)"
      and frame: "\<forall>ts d p. FieldAddr p \<notin> set ts \<longrightarrow> snd (Rows_Scan rows ts d) p = d p"
  shows "\<exists>ptrs err dest'.
           ptrs = map (\<lambda>cName. case fInfo (nm cName) of
                                  Some idx \<Rightarrow> FieldAddr idx | None \<Rightarrow> RawBytes) cols \<and>
           Rows_Scan rows ptrs dest = (err, dest') \<and>
           doScan nm T rows dest c = Returns (err, dest', c', [CallColumns, CallScan ptrs]) \<and>
           (\<forall>p. (\<forall>cName\<in>set cols. fInfo (nm cName) \<noteq> Some p) \<longrightarrow> dest' p = dest p)"
proof -
  let ?ptrs = "map (scan_target nm fInfo) cols"
  obtain err dest' where s: "Rows_Scan rows ?ptrs dest = (err, dest')"
    by (cases "Rows_Scan rows ?ptrs dest") blast
  have l: "doScan_loop nm T fInfo cols [] = Returns ?ptrs"
    using doScan_loop_targets[of cols fInfo nm T "[]"] paths by simp
  have d: "doScan nm T rows dest c = Returns (err, dest', c', [CallColumns, CallScan ?ptrs])"
    using struct meta cols l s by (simp add: doScan_def)
  have f: "\<forall>p. (\<forall>cName\<in>set cols. fInfo (nm cName) \<noteq> Some p) \<longrightarrow> dest' p = dest p"
  proof (intro allI impI)
    fix p
    assume "\<forall>cName\<in>set cols. fInfo (nm cName) \<noteq> Some p"
    then have "FieldAddr p \<notin> set ?ptrs" by (simp only: scan_target_mem) blast
    with frame have "snd (Rows_Scan rows ?ptrs dest) p = dest p" by blast
    with s show "dest' p = dest p" by simp
  qed
  have e: "?ptrs = map (\<lambda>cName. case fInfo (nm cName) of
                                  Some idx \<Rightarrow> FieldAddr idx | None \<Rightarrow> RawBytes) cols"
    by (simp add: scan_target_def)
  from s d f show ?thesis unfolding e by blast
qed

text \<open>
  The metadata fits the destination whenever the struct types the program resolves have
  different printed names and the cache held fitting entries before, as the empty cache
  does: then the metadata resolves and the scanner does as above.
\<close>

lemma doScan_targets_distinct_names:
  fixes rows :: "(nat list \<Rightarrow> 'v) Rows"
  assumes types: "closed_types U" and mem: "T \<in> U" and cache: "cache_ok U c"
      and struct: "t_Kind T = Struct"
      and cols: "Rows_Columns rows = (cols, None)"
      and frame: "\<forall>ts d p. FieldAddr p \<notin> set ts \<longrightarrow> snd (Rows_Scan rows ts d) p = d p"
  shows "\<exists>fInfo c' ptrs err dest'.
           getFieldInfo nm T True False c = Returns (fInfo, c') \<and> cache_ok U c' \<and>
           ptrs = map (\<lambda>cName. case fInfo (nm cName) of
                                  Some idx \<Rightarrow> FieldAddr idx | None \<Rightarrow> RawBytes) cols \<and>
           Rows_Scan rows ptrs dest = (err, dest') \<and>
           doScan nm T rows dest c = Returns (err, dest', c', [CallColumns, CallScan ptrs]) \<and>
           (\<forall>p. (\<forall>cName\<in>set cols. fInfo (nm cName) \<noteq> Some p) \<longrightarrow> dest' p = dest p)"
proof -
  obtain fInfo c' where meta: "getFieldInfo nm T True False c = Returns (fInfo, c')"
    using getFieldInfo_returns(1)[of T nm True False c] struct by auto
  note p = getFieldInfo_field_paths[OF types mem cache meta]
  have paths: "\<forall>cName\<in>set cols. \<forall>idx. fInfo (nm cName) = Some idx
                 \<longrightarrow> fieldPointer T idx = Returns (FieldAddr idx)"
    using p(1) by (auto simp: ran_def)
  from doScan_targets[OF struct cols meta paths frame, of dest] meta p(2)
  show ?thesis by blast
qed

text \<open>
  When a reported column is mapped to a path that is no such path of the destination
  type, the scanner panics before it calls \<^verbatim>\<open>Scan\<close>.
\<close>

lemma doScan_panics:
  assumes "t_Kind T = Struct"
      and "Rows_Columns rows = (cols, None)"
      and "getFieldInfo nm T True False c = Returns (fInfo, c')"
      and "cName \<in> set cols" and "fInfo (nm cName) = Some idx"
      and "fieldPointer T idx = Panic"
  shows "doScan nm T rows dest c = Panic"
  using assms doScan_loop_panics[of cName cols fInfo nm idx T "[]"]
  by (simp add: doScan_def)

text \<open>
  The pointer of an unexported field cannot be taken, nor that of a field below an
  unexported field that is not embedded; an exported field of an unexported embedded
  struct can be reached. The resolver skips every unexported field, so its own paths
  never meet the first two cases.
\<close>

lemma fieldPointer_unexported:
  "fieldPointer
     (RType ''main.row'' Struct False
        [SField ''secret'' ''main'' [] False (RType ''int'' OtherKind False [])]) [0] = Panic"
  "fieldPointer
     (RType ''main.row'' Struct False
        [SField ''in'' ''main'' [] False
           (RType ''main.inner'' Struct False
              [SField ''X'' '''' [] False (RType ''int'' OtherKind False [])])]) [0, 0] = Panic"
  "fieldPointer
     (RType ''main.row'' Struct False
        [SField ''inner'' ''main'' [] True
           (RType ''main.inner'' Struct False
              [SField ''X'' '''' [] False (RType ''int'' OtherKind False [])])]) [0, 0]
   = Returns (FieldAddr [0, 0])"
  by (simp_all add: fieldPointer_def FieldByIndex_def Value_Field_def Let_def)

lemma Scan_store_frame:
  "FieldAddr p \<notin> set ts \<Longrightarrow> Scan_store vals ts d p = d p"
  by (induction vals ts d rule: Scan_store.induct) auto

lemma sql_Rows_frame:
  "\<forall>ts d p. FieldAddr p \<notin> set ts \<longrightarrow> snd (Rows_Scan (sql_Rows cols vals) ts d) p = d p"
  by (simp add: sql_Rows_def Scan_store_frame)

lemma doScan_targets_example:
  "t_Kind (RType ''main.User'' Struct False
      [SField ''Base'' '''' [] True
         (RType ''main.Base'' Struct False
            [SField ''Created'' '''' [(''sql'', ''created'')] False
               (RType ''int'' OtherKind False [])]),
       SField ''ID'' '''' [(''sql'', ''id'')] False (RType ''int'' OtherKind False []),
       SField ''Name'' '''' [(''sql'', ''name'')] False (RType ''string'' OtherKind False [])])
     = Struct \<and>
   Rows_Columns (sql_Rows [''name'', ''bogus'', ''created''] [10, 20, 30 :: nat])
     = ([''name'', ''bogus'', ''created''], None) \<and>
   (\<exists>dest' c'.
      doScan (\<lambda>s. s)
        (RType ''main.User'' Struct False
          [SField ''Base'' '''' [] True
             (RType ''main.Base'' Struct False
                [SField ''Created'' '''' [(''sql'', ''created'')] False
                   (RType ''int'' OtherKind False [])]),
           SField ''ID'' '''' [(''sql'', ''id'')] False (RType ''int'' OtherKind False []),
           SField ''Name'' '''' [(''sql'', ''name'')] False (RType ''string'' OtherKind False [])])
        (sql_Rows [''name'', ''bogus'', ''created''] [10, 20, 30 :: nat]) (\<lambda>p. 0) Map.empty
      = Returns (None, dest', c',
                 [CallColumns, CallScan [FieldAddr [2], RawBytes, FieldAddr [0, 0]]]) \<and>
      dest' [2] = 10 \<and> dest' [0, 0] = 30 \<and> dest' [1] = 0)"
proof -
  let ?B = "RType ''main.Base'' Struct False
              [SField ''Created'' '''' [(''sql'', ''created'')] False
                 (RType ''int'' OtherKind False [])]"
  let ?T = "RType ''main.User'' Struct False
      [SField ''Base'' '''' [] True ?B,
       SField ''ID'' '''' [(''sql'', ''id'')] False (RType ''int'' OtherKind False []),
       SField ''Name'' '''' [(''sql'', ''name'')] False (RType ''string'' OtherKind False [])]"
  let ?cols = "[''name'', ''bogus'', ''created'']"
  let ?rows = "sql_Rows ?cols [10, 20, 30 :: nat]"
  let ?F = "[''created'' \<mapsto> [0, 0], ''id'' \<mapsto> [1], ''name'' \<mapsto> [2::nat]]"
  have k: "t_Kind ?T = Struct" by simp
  have rc: "Rows_Columns ?rows = (?cols, None)" by (simp add: sql_Rows_def)
  obtain fInfo c' where meta: "getFieldInfo (\<lambda>s. s) ?T True False Map.empty = Returns (fInfo, c')"
    using getFieldInfo_returns(1)[of ?T "\<lambda>s. s" True False Map.empty] k by auto
  have F0: "fInfo = fst (case getFieldInfo (\<lambda>s. s) ?T True False Map.empty of
                           Returns r \<Rightarrow> r | Panic \<Rightarrow> (Map.empty, Map.empty))"
    by (simp add: meta)
  have F: "fInfo = ?F"
    unfolding F0 by (auto simp: resolver_eval map_add_def fun_eq_iff)
  have paths: "\<forall>cName\<in>set ?cols. \<forall>idx. fInfo cName = Some idx
                 \<longrightarrow> fieldPointer ?T idx = Returns (FieldAddr idx)"
    unfolding F
    by (simp add: fieldPointer_def FieldByIndex_def Value_Field_def Let_def)
  from doScan_targets[OF k rc meta paths sql_Rows_frame, of "\<lambda>p. 0"]
  obtain ptrs err dest' where
    p: "ptrs = map (\<lambda>cName. case fInfo cName of
                               Some idx \<Rightarrow> FieldAddr idx | None \<Rightarrow> RawBytes) ?cols" and
    s: "Rows_Scan ?rows ptrs (\<lambda>p. 0) = (err, dest')" and
    d: "doScan (\<lambda>s. s) ?T ?rows (\<lambda>p. 0) Map.empty
          = Returns (err, dest', c', [CallColumns, CallScan ptrs])"
    by blast
  from p have p': "ptrs = [FieldAddr [2], RawBytes, FieldAddr [0, 0]]"
    by (simp add: F)
  from s have e: "err = None" and 1: "dest' [2] = 10" and 2: "dest' [0, 0] = 30"
    and 3: "dest' [1] = 0"
    by (auto simp: p' sql_Rows_def)
  from k rc d p' e 1 2 3 show ?thesis by blast
qed

text \<open>
  C6, on the code. The metadata the scanner uses is looked up in the cache under the
  printed name of the destination type. Two struct types of different packages that are
  both named \<^verbatim>\<open>model.User\<close> print the same. Scanned from the empty cache, each gets one
  target per reported column and one call of \<^verbatim>\<open>Scan\<close>, as the claim says: the first
  type, with the fields \<^verbatim>\<open>ID\<close> and \<^verbatim>\<open>Name\<close>, and also the second, with the one field
  \<^verbatim>\<open>Email\<close>, whose cursor reports the columns \<^verbatim>\<open>email\<close> and \<^verbatim>\<open>name\<close>. But
  scanned with the cache the first scan has left, the second type is given the metadata
  of the first: the column \<^verbatim>\<open>name\<close> is mapped to the field path 1, which the
  destination does not have, and the scanner panics without a call of \<^verbatim>\<open>Scan\<close>.
\<close>

theorem doScan_same_name_panics:
  "doScan (\<lambda>s. s)
     (RType ''model.User'' Struct False
        [SField ''ID'' '''' [(''sql'', ''id'')] False (RType ''int'' OtherKind False []),
         SField ''Name'' '''' [(''sql'', ''name'')] False (RType ''string'' OtherKind False [])])
     (sql_Rows [''id'', ''name''] [1, 2 :: nat]) (\<lambda>p. 0) Map.empty
   = Returns (None, (\<lambda>p. 0)([0] := 1, [1] := 2),
              [''model.Usersqltruefalse'' \<mapsto> [''id'' \<mapsto> [0], ''name'' \<mapsto> [1]]],
              [CallColumns, CallScan [FieldAddr [0], FieldAddr [1]]]) \<and>
   doScan (\<lambda>s. s)
     (RType ''model.User'' Struct False
        [SField ''Email'' '''' [(''sql'', ''email'')] False (RType ''string'' OtherKind False [])])
     (sql_Rows [''email'', ''name''] [7, 8 :: nat]) (\<lambda>p. 0) Map.empty
   = Returns (None, (\<lambda>p. 0)([0] := 7),
              [''model.Usersqltruefalse'' \<mapsto> [''email'' \<mapsto> [0]]],
              [CallColumns, CallScan [FieldAddr [0], RawBytes]]) \<and>
   doScan (\<lambda>s. s)
     (RType ''model.User'' Struct False
        [SField ''Email'' '''' [(''sql'', ''email'')] False (RType ''string'' OtherKind False [])])
     (sql_Rows [''email'', ''name''] [7, 8 :: nat]) (\<lambda>p. 0)
     [''model.Usersqltruefalse'' \<mapsto> [''id'' \<mapsto> [0], ''name'' \<mapsto> [1]]]
   = Panic"
  by (simp add: doScan_def resolver_eval sql_Rows_def fieldPointer_def FieldByIndex_def
        Value_Field_def Let_def)

section \<open>The marker survives the column substitution\<close>

lemma strings_Contains_iff:
  "strings_Contains s sub = (\<exists>pre post. s = pre @ sub @ post)"
proof
  assume "strings_Contains s sub"
  then have "0 \<le> strings_Index s sub" by (simp add: strings_Contains_def)
  from strings_Index_split[OF this] show "\<exists>pre post. s = pre @ sub @ post" by blast
next
  assume "\<exists>pre post. s = pre @ sub @ post"
  then obtain pre post where s: "s = pre @ sub @ post" by blast
  have "0 \<le> strings_Index (pre @ sub @ post) sub"
  proof (induction pre)
    case Nil
    have "prefix sub (sub @ post)" by simp
    then show ?case by (cases "sub @ post") (auto simp: Let_def)
  next
    case (Cons c pre)
    then show ?case by (auto simp: Let_def)
  qed
  with s show "strings_Contains s sub" by (simp add: strings_Contains_def)
qed

lemma marker_survives:
  assumes "pre @ ''SELECT *'' @ post = a @ ''IN (*)'' @ b"
  shows "\<exists>x y. pre @ new @ post = x @ ''IN (*)'' @ y"
proof -
  from assms obtain us where
    "(pre = a @ us \<and> us @ ''SELECT *'' @ post = ''IN (*)'' @ b) \<or>
     (pre @ us = a \<and> ''SELECT *'' @ post = us @ ''IN (*)'' @ b)"
    unfolding append_eq_append_conv2 by blast
  then show ?thesis
  proof
    assume l: "pre = a @ us \<and> us @ ''SELECT *'' @ post = ''IN (*)'' @ b"
    then obtain vs where
      "(us = ''IN (*)'' @ vs \<and> vs @ ''SELECT *'' @ post = b) \<or>
       (us @ vs = ''IN (*)'' \<and> ''SELECT *'' @ post = vs @ b)"
      unfolding append_eq_append_conv2 by blast
    then show ?thesis
    proof
      assume "us = ''IN (*)'' @ vs \<and> vs @ ''SELECT *'' @ post = b"
      with l have "pre @ new @ post = a @ ''IN (*)'' @ (vs @ new @ post)" by simp
      then show ?thesis by blast
    next
      assume o: "us @ vs = ''IN (*)'' \<and> ''SELECT *'' @ post = vs @ b"
      show ?thesis
      proof (cases vs)
        case Nil
        with o l have "pre @ new @ post = a @ ''IN (*)'' @ (new @ post)" by simp
        then show ?thesis by blast
      next
        case (Cons v vs')
        with o have "v = CHR ''S''" by simp
        moreover from o Cons have "v \<in> set ''IN (*)''"
          by (metis list.set_intros(1) set_append UnCI)
        ultimately show ?thesis by simp
      qed
    qed
  next
    assume r: "pre @ us = a \<and> ''SELECT *'' @ post = us @ ''IN (*)'' @ b"
    then obtain ws where
      "(''SELECT *'' = us @ ws \<and> ws @ post = ''IN (*)'' @ b) \<or>
       (''SELECT *'' @ ws = us \<and> post = ws @ ''IN (*)'' @ b)"
      unfolding append_eq_append_conv2 by blast
    then show ?thesis
    proof
      assume "''SELECT *'' @ ws = us \<and> post = ws @ ''IN (*)'' @ b"
      then have "pre @ new @ post = (pre @ new @ ws) @ ''IN (*)'' @ b" by simp
      then show ?thesis by blast
    next
      assume o: "''SELECT *'' = us @ ws \<and> ws @ post = ''IN (*)'' @ b"
      show ?thesis
      proof (cases ws)
        case Nil
        with o have "pre @ new @ post = (pre @ new) @ ''IN (*)'' @ b" by simp
        then show ?thesis by blast
      next
        case (Cons w ws')
        with o have "w = CHR ''I''" by simp
        moreover from o Cons have "w \<in> set ''SELECT *''"
          by (metis list.set_intros(1) set_append UnCI)
        ultimately show ?thesis by simp
      qed
    qed
  qed
qed

lemma Replace1_keeps_marker:
  assumes "strings_Contains q InQueryReplace"
  shows "strings_Contains (strings_Replace1 q QueryReplace new) InQueryReplace"
proof (cases "strings_Index q QueryReplace < 0")
  case True
  with assms show ?thesis by (simp add: strings_Replace1_absent)
next
  case False
  then have "0 \<le> strings_Index q QueryReplace" by simp
  from strings_Replace1_split[OF this] obtain pre post where
    q: "q = pre @ QueryReplace @ post" and
    r: "strings_Replace1 q QueryReplace new = pre @ new @ post" by blast
  from assms obtain a b where "q = a @ InQueryReplace @ b"
    unfolding strings_Contains_iff by blast
  with q have "pre @ ''SELECT *'' @ post = a @ ''IN (*)'' @ b"
    by (simp add: QueryReplace_def InQueryReplace_def)
  from marker_survives[OF this, of new] r show ?thesis
    unfolding strings_Contains_iff InQueryReplace_def by simp
qed

section \<open>Queries with the marker and no argument\<close>

text \<open>
  C10, as the code has it. The template holds the IN-marker and the argument list is
  empty. \<open>QueryBasicDb\<close> and \<open>QueryBasicRowDb\<close> return at once, whatever the database
  handle is: no result (the zero value), no error, and no query sent; in particular
  \<open>QueryBasicRowDb\<close> does not report that there are no rows. \<open>doQueryDb\<close> first checks
  the handle: with a nil handle it returns the error \<open>ErrNotSet\<close>. With a handle, and a
  struct type, it first projects the columns (which may fill the metadata cache) and
  then returns a nil cursor, no error, and sends no query.
\<close>

theorem empty_args_return_early:
  assumes m: "strings_Contains q InQueryReplace"
  shows "QueryBasicDb db q [] = Returns ([], None, []) \<and>
         QueryBasicRowDb zero db q [] = Returns (zero, None, []) \<and>
         doQueryDb iter nm T None q [] c = Returns (None, Some ErrNotSet, [], c) \<and>
         (t_Kind T = Struct \<longrightarrow>
            (\<exists>cols c'. columns iter nm T c = Returns (cols, c') \<and>
               doQueryDb iter nm T (Some dbQuery) q [] c = Returns (None, None, [], c')))"
proof -
  have 1: "QueryBasicDb db q [] = Returns ([], None, [])"
    using m by (simp add: QueryBasicDb_def)
  have 2: "QueryBasicRowDb zero db q [] = Returns (zero, None, [])"
    using m by (simp add: QueryBasicRowDb_def)
  have 3: "doQueryDb iter nm T None q [] c = Returns (None, Some ErrNotSet, [], c)"
    by (simp add: doQueryDb_def)
  have 4: "t_Kind T = Struct \<longrightarrow>
            (\<exists>cols c'. columns iter nm T c = Returns (cols, c') \<and>
               doQueryDb iter nm T (Some dbQuery) q [] c = Returns (None, None, [], c'))"
  proof
    assume "t_Kind T = Struct"
    from columns_returns[OF this, of iter nm c] obtain cols c' where
      cl: "columns iter nm T c = Returns (cols, c')" by blast
    have "strings_Contains (strings_Replace1 q QueryReplace (''SELECT '' @ cols)) InQueryReplace"
      by (rule Replace1_keeps_marker[OF m])
    with cl have "doQueryDb iter nm T (Some dbQuery) q [] c = Returns (None, None, [], c')"
      by (simp add: doQueryDb_def Let_def)
    with cl show "\<exists>cols c'. columns iter nm T c = Returns (cols, c') \<and>
               doQueryDb iter nm T (Some dbQuery) q [] c = Returns (None, None, [], c')"
      by blast
  qed
  from 1 2 3 4 show ?thesis by blast
qed

theorem empty_args_return_early_witness:
  "strings_Contains ''SELECT * FROM users WHERE id IN (*)'' InQueryReplace \<and>
   QueryBasicDb (None :: nat basic_rows sqlDB) ''SELECT * FROM users WHERE id IN (*)'' []
     = Returns ([], None, []) \<and>
   QueryBasicRowDb (0 :: nat) None ''SELECT * FROM users WHERE id IN (*)'' []
     = Returns (0, None, []) \<and>
   t_Kind (RType ''main.User'' Struct False
             [SField ''ID'' '''' [] False (RType ''int'' OtherKind False [])]) = Struct \<and>
   (\<exists>c'. doQueryDb (\<lambda>m. [(''id'', [0])]) (\<lambda>s. s)
            (RType ''main.User'' Struct False
               [SField ''ID'' '''' [] False (RType ''int'' OtherKind False [])])
            (Some (\<lambda>q a. (Inl ''unreachable'' :: error + nat)))
            ''SELECT * FROM users WHERE id IN (*)'' [] Map.empty
          = Returns (None, None, [], c'))"
proof -
  let ?q = "''SELECT * FROM users WHERE id IN (*)''"
  let ?T = "RType ''main.User'' Struct False
              [SField ''ID'' '''' [] False (RType ''int'' OtherKind False [])]"
  have m: "strings_Contains ?q InQueryReplace"
    by (simp add: strings_Contains_def InQueryReplace_def Let_def)
  have k: "t_Kind ?T = Struct" by simp
  note t = empty_args_return_early[OF m, of "None :: nat basic_rows sqlDB" "0 :: nat"
             "\<lambda>m. [(''id'', [0])]" "\<lambda>s. s" ?T Map.empty
             "\<lambda>q a. (Inl ''unreachable'' :: error + nat)"]
  from t have 1: "QueryBasicDb (None :: nat basic_rows sqlDB) ?q [] = Returns ([], None, [])"
    by blast
  from t have 2: "QueryBasicRowDb (0 :: nat) None ?q [] = Returns (0, None, [])"
    by blast
  from t k have 3: "\<exists>c'. doQueryDb (\<lambda>m. [(''id'', [0])]) (\<lambda>s. s) ?T
            (Some (\<lambda>q a. (Inl ''unreachable'' :: error + nat))) ?q [] Map.empty
          = Returns (None, None, [], c')"
    by blast
  from m 1 2 k 3 show ?thesis by blast
qed

theorem doQueryDb_nil_handle_counterexample:
  "strings_Contains ''SELECT * FROM users WHERE id IN (*)'' InQueryReplace \<and>
   doQueryDb (\<lambda>m. []) (\<lambda>s. s) (RType ''main.User'' Struct False [])
       (None :: nat sqlDB) ''SELECT * FROM users WHERE id IN (*)'' [] Map.empty
     = Returns (None, Some ''sqlp: database not set'', [], Map.empty) \<and>
   \<not> (\<exists>rows calls c'.
        doQueryDb (\<lambda>m. []) (\<lambda>s. s) (RType ''main.User'' Struct False [])
          (None :: nat sqlDB) ''SELECT * FROM users WHERE id IN (*)'' [] Map.empty
        = Returns (rows, None, calls, c'))"
  by (simp add: strings_Contains_def InQueryReplace_def Let_def doQueryDb_def ErrNotSet_def)

end
